theory Spec2Isabelle
  imports Main
begin

section \<open>The shared WebSocket connection manager\<close>

text \<open>
  A shallow embedding of \<^verbatim>\<open>SharedWebSocketManager\<close> from
  \<^verbatim>\<open>frontend/src/hooks/useWebSocketManager.ts\<close>. The class keeps four JavaScript
  maps keyed by the connection id; here they are partial functions. Objects that the
  source reaches through more than one reference live in explicit stores:
  \<^item> the \<^verbatim>\<open>WebSocket\<close> objects (a socket is reachable from \<^verbatim>\<open>connections\<close> and from the
    closures \<^verbatim>\<open>onopen\<close>, \<^verbatim>\<open>onmessage\<close>, \<^verbatim>\<open>onclose\<close> installed on it),
  \<^item> the inner \<^verbatim>\<open>Map<string, Set<handler>>\<close> objects (reachable from
    \<^verbatim>\<open>messageHandlers\<close> and from every clean-up closure returned by \<^verbatim>\<open>onMessage\<close>),
  \<^item> the pending timers of the event loop.
  Callbacks are consumer code outside the class. A callback is its reference; what it
  does when it is called is given by a \<open>consumer\<close>: the calls it makes on the manager
  while it runs, and whether it then throws. Calling it appends to the trace
  \<open>invoked\<close>. The transport and the event loop are the environment: \<open>fire\<close> below
  delivers their events to the closures of the class, \<open>deliver\<close> an inbound frame.
\<close>

subsection \<open>Data\<close>

type_synonym conn_id = int
type_synonym handler = nat
type_synonym sock = nat
type_synonym timer = nat
type_synonym map_ref = nat

text \<open>A JavaScript \<^verbatim>\<open>Set\<close> by its slots, in insertion order; an emptied slot is \<open>None\<close>.\<close>

type_synonym 'a js_set = "'a option list"

datatype ready_state = CONNECTING | OPEN | CLOSING | CLOSED

text \<open>The object given to \<^verbatim>\<open>JSON.stringify\<close> before \<^verbatim>\<open>ws.send\<close>: action and channels.\<close>

datatype client_frame = ClientFrame string "string list"

text \<open>
  What \<^verbatim>\<open>JSON.parse\<close> makes of an inbound text frame: it throws, or returns
  \<^verbatim>\<open>null\<close> (reading \<^verbatim>\<open>.type\<close> of it throws), or returns a value whose \<^verbatim>\<open>.type\<close> is
  a string (\<open>Some\<close>) or anything else (\<open>None\<close>); the second field is the rest of the
  message.
\<close>

datatype message = JsonNull | JsonValue "string option" string

datatype frame = NotJson string | Json message

text \<open>What can be thrown inside \<^verbatim>\<open>ws.onmessage\<close>; the last by the callback named.\<close>

datatype js_error = SyntaxError | TypeError | ThrownByCallback handler

datatype log_entry = FailedToParse js_error | WebSocketError conn_id

record websocket =
  readyState :: ready_state
  connection_id :: conn_id
  sent :: "client_frame list"

text \<open>The clean-up closure of \<^verbatim>\<open>onMessage\<close> captures \<^verbatim>\<open>handlers\<close>, \<^verbatim>\<open>type\<close> and \<^verbatim>\<open>handler\<close>.\<close>

datatype token = Token map_ref string handler

record manager =
  connections :: "conn_id \<rightharpoonup> sock"
  messageHandlers :: "conn_id \<rightharpoonup> map_ref"
  subscribedChannels :: "conn_id \<rightharpoonup> string list"
  reconnectTimeouts :: "conn_id \<rightharpoonup> timer"
  autoReconnect :: bool
  reconnectInterval :: nat
  sockets :: "sock \<Rightarrow> websocket"
  next_socket :: sock
  handler_maps :: "map_ref \<Rightarrow> (string \<rightharpoonup> handler js_set)"
  next_map :: map_ref
  timers :: "timer \<rightharpoonup> conn_id"
  next_timer :: timer
  console :: "log_entry list"
  invoked :: "(handler \<times> message) list"

text \<open>
  The singleton \<^verbatim>\<open>wsManager = new SharedWebSocketManager()\<close>, in an environment with no
  socket, no handler map and no timer yet. Timer handles start at 1: the source tests
  them for truthiness.
\<close>

definition wsManager :: manager where
  "wsManager =
     \<lparr>connections = Map.empty, messageHandlers = Map.empty, subscribedChannels = Map.empty,
      reconnectTimeouts = Map.empty, autoReconnect = True, reconnectInterval = 10000,
      sockets = (\<lambda>_. \<lparr>readyState = CLOSED, connection_id = 0, sent = []\<rparr>), next_socket = 0,
      handler_maps = (\<lambda>_. Map.empty), next_map = 0,
      timers = Map.empty, next_timer = 1, console = [], invoked = []\<rparr>"

subsection \<open>JavaScript sets, sockets and timers\<close>

text \<open>
  A JavaScript \<^verbatim>\<open>Set\<close> iterates in insertion order and holds a value once. The
  sets of channel names are never changed while they are read (\<^verbatim>\<open>Array.from\<close> copies
  one at once), so such a set is the list of its values, without repetition,
  \<^verbatim>\<open>add\<close> appending only what is absent.
\<close>

definition set_add :: "'a \<Rightarrow> 'a list \<Rightarrow> 'a list" where
  "set_add x xs = (if x \<in> set xs then xs else xs @ [x])"

definition set_delete :: "'a \<Rightarrow> 'a list \<Rightarrow> 'a list" where
  "set_delete x xs = removeAll x xs"

text \<open>
  The sets of callbacks are changed while \<^verbatim>\<open>forEach\<close> iterates them, when a callback
  registers or removes callbacks. There the slots of the \<^verbatim>\<open>Set\<close> matter, as ECMAScript
  defines them: \<^verbatim>\<open>delete\<close> empties the slot of the value and keeps its place,
  \<^verbatim>\<open>add\<close> appends a slot, and \<^verbatim>\<open>forEach\<close> walks the slots by index, skipping the
  empty ones and going on into the slots added meanwhile.
\<close>

definition js_values :: "'a js_set \<Rightarrow> 'a list" where
  "js_values es = concat (map (\<lambda>e. case e of None \<Rightarrow> [] | Some x \<Rightarrow> [x]) es)"

definition js_add :: "'a \<Rightarrow> 'a js_set \<Rightarrow> 'a js_set" where
  "js_add x es = (if Some x \<in> set es then es else es @ [Some x])"

definition js_delete :: "'a \<Rightarrow> 'a js_set \<Rightarrow> 'a js_set" where
  "js_delete x es = map (\<lambda>e. if e = Some x then None else e) es"

definition new_WebSocket :: "conn_id \<Rightarrow> manager \<Rightarrow> sock \<times> manager" where
  "new_WebSocket i s =
     (next_socket s,
      s\<lparr>sockets := (sockets s)(next_socket s :=
            \<lparr>readyState = CONNECTING, connection_id = i, sent = []\<rparr>),
        next_socket := Suc (next_socket s)\<rparr>)"

text \<open>\<^verbatim>\<open>close()\<close> starts the closing handshake unless the socket is closing or closed.\<close>

definition ws_close :: "sock \<Rightarrow> manager \<Rightarrow> manager" where
  "ws_close k s =
     (if readyState (sockets s k) = CLOSING \<or> readyState (sockets s k) = CLOSED then s
      else s\<lparr>sockets := (sockets s)(k := (sockets s k)\<lparr>readyState := CLOSING\<rparr>)\<rparr>)"

text \<open>
  \<^verbatim>\<open>send\<close> transmits on an open socket. The class calls it only on an open socket
  (behind the \<^verbatim>\<open>readyState === WebSocket.OPEN\<close> test, or inside \<^verbatim>\<open>onopen\<close>); on a
  closing or closed socket the browser discards the data.
\<close>

definition ws_send :: "sock \<Rightarrow> client_frame \<Rightarrow> manager \<Rightarrow> manager" where
  "ws_send k f s =
     (if readyState (sockets s k) = OPEN
      then s\<lparr>sockets := (sockets s)(k := (sockets s k)\<lparr>sent := sent (sockets s k) @ [f]\<rparr>)\<rparr>
      else s)"

definition setTimeout :: "conn_id \<Rightarrow> manager \<Rightarrow> timer \<times> manager" where
  "setTimeout i s =
     (next_timer s,
      s\<lparr>timers := (timers s)(next_timer s \<mapsto> i), next_timer := Suc (next_timer s)\<rparr>)"

definition clearTimeout :: "timer \<Rightarrow> manager \<Rightarrow> manager" where
  "clearTimeout t s = s\<lparr>timers := (timers s)(t := None)\<rparr>"

subsection \<open>The methods of the class\<close>

definition connect :: "conn_id \<Rightarrow> manager \<Rightarrow> manager" where
  "connect i s =
     (let existing = connections s i in
      if (case existing of None \<Rightarrow> False
          | Some k \<Rightarrow> readyState (sockets s k) = OPEN \<or> readyState (sockets s k) = CONNECTING)
      then s
      else
        let s1 = (case existing of None \<Rightarrow> s | Some k \<Rightarrow> ws_close k s);
            s2 = (case reconnectTimeouts s1 i of None \<Rightarrow> s1
                  | Some t \<Rightarrow> (clearTimeout t s1)
                        \<lparr>reconnectTimeouts := (reconnectTimeouts s1)(i := None)\<rparr>);
            (ws, s3) = new_WebSocket i s2
        in s3\<lparr>connections := (connections s3)(i \<mapsto> ws)\<rparr>)"

definition ws_onopen :: "conn_id \<Rightarrow> sock \<Rightarrow> manager \<Rightarrow> manager" where
  "ws_onopen i ws s =
     (let s1 = s\<lparr>connections := (connections s)(i \<mapsto> ws)\<rparr> in
      case subscribedChannels s1 i of None \<Rightarrow> s1
      | Some chs \<Rightarrow>
          if length chs > 0 then ws_send ws (ClientFrame ''subscribe'' chs) s1 else s1)"

definition JSON_parse :: "frame \<Rightarrow> js_error + message" where
  "JSON_parse f = (case f of NotJson _ \<Rightarrow> Inl SyntaxError | Json m \<Rightarrow> Inr m)"

definition get_type :: "message \<Rightarrow> js_error + string option" where
  "get_type m = (case m of JsonNull \<Rightarrow> Inl TypeError | JsonValue t _ \<Rightarrow> Inr t)"

definition ws_onerror :: "conn_id \<Rightarrow> manager \<Rightarrow> manager" where
  "ws_onerror i s = s\<lparr>console := console s @ [WebSocketError i]\<rparr>"

definition ws_onclose :: "conn_id \<Rightarrow> manager \<Rightarrow> manager" where
  "ws_onclose i s =
     (let s1 = s\<lparr>connections := (connections s)(i := None)\<rparr> in
      if autoReconnect s1
      then (let (timeout, s2) = setTimeout i s1
            in s2\<lparr>reconnectTimeouts := (reconnectTimeouts s2)(i \<mapsto> timeout)\<rparr>)
      else s1)"

definition disconnect :: "conn_id \<Rightarrow> manager \<Rightarrow> manager" where
  "disconnect i s =
     (let s1 = (case reconnectTimeouts s i of None \<Rightarrow> s
                | Some t \<Rightarrow> (clearTimeout t s)
                      \<lparr>reconnectTimeouts := (reconnectTimeouts s)(i := None)\<rparr>);
          s2 = (case connections s1 i of None \<Rightarrow> s1
                | Some ws \<Rightarrow> (ws_close ws s1)\<lparr>connections := (connections s1)(i := None)\<rparr>)
      in s2\<lparr>messageHandlers := (messageHandlers s2)(i := None),
            subscribedChannels := (subscribedChannels s2)(i := None)\<rparr>)"

definition subscribe :: "conn_id \<Rightarrow> string list \<Rightarrow> manager \<Rightarrow> manager" where
  "subscribe i chs s =
     (let channelSet = (case subscribedChannels s i of None \<Rightarrow> [] | Some cs \<Rightarrow> cs);
          s1 = s\<lparr>subscribedChannels :=
                   (subscribedChannels s)(i \<mapsto> foldl (\<lambda>cs ch. set_add ch cs) channelSet chs)\<rparr>
      in case connections s1 i of
           None \<Rightarrow> connect i s1
         | Some ws \<Rightarrow>
             if readyState (sockets s1 ws) = OPEN
             then ws_send ws (ClientFrame ''subscribe'' chs) s1
             else connect i s1)"

definition unsubscribe :: "conn_id \<Rightarrow> string list \<Rightarrow> manager \<Rightarrow> manager" where
  "unsubscribe i chs s =
     (let s1 = (case subscribedChannels s i of None \<Rightarrow> s
                | Some channelSet \<Rightarrow>
                    s\<lparr>subscribedChannels :=
                        (subscribedChannels s)(i \<mapsto> foldl (\<lambda>cs ch. set_delete ch cs) channelSet chs)\<rparr>)
      in case connections s1 i of
           None \<Rightarrow> s1
         | Some ws \<Rightarrow>
             if readyState (sockets s1 ws) = OPEN
             then ws_send ws (ClientFrame ''unsubscribe'' chs) s1
             else s1)"

definition onMessage :: "conn_id \<Rightarrow> string \<Rightarrow> handler \<Rightarrow> manager \<Rightarrow> token \<times> manager" where
  "onMessage i ty h s =
     (let s1 = (case messageHandlers s i of
                  None \<Rightarrow> s\<lparr>handler_maps := (handler_maps s)(next_map s := Map.empty),
                             next_map := Suc (next_map s),
                             messageHandlers := (messageHandlers s)(i \<mapsto> next_map s)\<rparr>
                | Some _ \<Rightarrow> s);
          handlers = (case messageHandlers s1 i of None \<Rightarrow> next_map s | Some a \<Rightarrow> a);
          typeHandlers = (case handler_maps s1 handlers ty of None \<Rightarrow> [] | Some hs \<Rightarrow> hs)
      in (Token handlers ty h,
          s1\<lparr>handler_maps := (handler_maps s1)(handlers :=
                (handler_maps s1 handlers)(ty \<mapsto> js_add h typeHandlers))\<rparr>))"

text \<open>Calling the closure that \<^verbatim>\<open>onMessage\<close> returned.\<close>

definition cleanup :: "token \<Rightarrow> manager \<Rightarrow> manager" where
  "cleanup tok s =
     (case tok of Token handlers ty h \<Rightarrow>
        (case handler_maps s handlers ty of
           None \<Rightarrow> s
         | Some typeHandlers \<Rightarrow>
             s\<lparr>handler_maps := (handler_maps s)(handlers :=
                  (handler_maps s handlers)(ty \<mapsto> js_delete h typeHandlers))\<rparr>))"

definition isConnected :: "conn_id \<Rightarrow> manager \<Rightarrow> bool" where
  "isConnected i s =
     (case connections s i of None \<Rightarrow> False | Some ws \<Rightarrow> readyState (sockets s ws) = OPEN)"

subsection \<open>Callbacks and \<^verbatim>\<open>ws.onmessage\<close>\<close>

text \<open>
  What a callback may call while it runs: the methods of the manager and the clean-up
  closures.
\<close>

datatype api_call =
    CallConnect conn_id
  | CallDisconnect conn_id
  | CallSubscribe conn_id "string list"
  | CallUnsubscribe conn_id "string list"
  | CallOnMessage conn_id string handler
  | CallCleanup token

fun api :: "api_call \<Rightarrow> manager \<Rightarrow> manager" where
  "api (CallConnect i) s = connect i s"
| "api (CallDisconnect i) s = disconnect i s"
| "api (CallSubscribe i chs) s = subscribe i chs s"
| "api (CallUnsubscribe i chs) s = unsubscribe i chs s"
| "api (CallOnMessage i ty h) s = snd (onMessage i ty h s)"
| "api (CallCleanup tok) s = cleanup tok s"

text \<open>
  The consumer's code: for a callback and the message it is given, the calls the callback
  makes on the manager, in order, and whether it throws after them. The properties below
  hold for every consumer, or say of which.
\<close>

type_synonym consumer = "handler \<Rightarrow> message \<Rightarrow> api_call list \<times> bool"

text \<open>How a piece of code ends: it returns, or it throws; either way in a state.\<close>

datatype completion = Normal manager | Thrown js_error manager

fun state_of :: "completion \<Rightarrow> manager" where
  "state_of (Normal s) = s"
| "state_of (Thrown _ s) = s"

text \<open>\<^verbatim>\<open>handler(message)\<close>.\<close>

definition call_handler :: "consumer \<Rightarrow> handler \<Rightarrow> message \<Rightarrow> manager \<Rightarrow> completion" where
  "call_handler beh h m s =
     (let s1 = foldl (\<lambda>u c. api c u) (s\<lparr>invoked := invoked s @ [(h, m)]\<rparr>) (fst (beh h m))
      in if snd (beh h m) then Thrown (ThrownByCallback h) s1 else Normal s1)"

text \<open>
  \<^verbatim>\<open>handlers.get(ty).forEach(handler => handler(message))\<close> on the map at \<open>a\<close>, from
  the slot \<open>index\<close> on. The set is read again after every call, since the callback may
  have changed it; a callback that throws ends the iteration. The iteration need not
  end (a callback may remove and add itself each time it is called): then the result is
  \<open>None\<close>.
\<close>

partial_function (option) forEach_from ::
  "consumer \<Rightarrow> map_ref \<Rightarrow> string \<Rightarrow> nat \<Rightarrow> message \<Rightarrow> manager \<Rightarrow> completion option" where
  "forEach_from beh a ty index m s =
     (let entries = (case handler_maps s a ty of None \<Rightarrow> [] | Some es \<Rightarrow> es) in
      if index < length entries
      then (case entries ! index of
              None \<Rightarrow> forEach_from beh a ty (Suc index) m s
            | Some h \<Rightarrow>
                (case call_handler beh h m s of
                   Thrown err s' \<Rightarrow> Some (Thrown err s')
                 | Normal s' \<Rightarrow> forEach_from beh a ty (Suc index) m s'))
      else Some (Normal s))"

text \<open>\<^verbatim>\<open>const hs = handlers.get(ty); if (hs) { hs.forEach(handler => handler(message)) }\<close>\<close>

definition get_forEach ::
  "consumer \<Rightarrow> map_ref \<Rightarrow> string \<Rightarrow> message \<Rightarrow> manager \<Rightarrow> completion option" where
  "get_forEach beh a ty m s =
     (case handler_maps s a ty of
        None \<Rightarrow> Some (Normal s)
      | Some _ \<Rightarrow> forEach_from beh a ty 0 m s)"

text \<open>
  The body of the \<^verbatim>\<open>try\<close> block of \<^verbatim>\<open>ws.onmessage\<close>. The local \<^verbatim>\<open>handlers\<close> is the
  map \<open>a\<close> throughout, whatever the callbacks do to \<^verbatim>\<open>messageHandlers\<close>.
\<close>

definition ws_onmessage_try :: "consumer \<Rightarrow> conn_id \<Rightarrow> frame \<Rightarrow> manager \<Rightarrow> completion option" where
  "ws_onmessage_try beh i f s =
     (case JSON_parse f of Inl err \<Rightarrow> Some (Thrown err s)
      | Inr message \<Rightarrow>
          (case messageHandlers s i of None \<Rightarrow> Some (Normal s)
           | Some a \<Rightarrow>
               (case get_type message of Inl err \<Rightarrow> Some (Thrown err s)
                | Inr t \<Rightarrow>
                    (case (case t of None \<Rightarrow> Some (Normal s)
                           | Some ty \<Rightarrow> get_forEach beh a ty message s) of
                       None \<Rightarrow> None
                     | Some (Thrown err s1) \<Rightarrow> Some (Thrown err s1)
                     | Some (Normal s1) \<Rightarrow> get_forEach beh a ''all'' message s1))))"

text \<open>\<^verbatim>\<open>ws.onmessage\<close>: the \<^verbatim>\<open>try\<close> block, and the \<^verbatim>\<open>catch\<close> that logs whatever was thrown.\<close>

definition ws_onmessage :: "consumer \<Rightarrow> conn_id \<Rightarrow> frame \<Rightarrow> manager \<Rightarrow> manager option" where
  "ws_onmessage beh i f s =
     (case ws_onmessage_try beh i f s of
        None \<Rightarrow> None
      | Some (Normal s') \<Rightarrow> Some s'
      | Some (Thrown err s') \<Rightarrow> Some (s'\<lparr>console := console s' @ [FailedToParse err]\<rparr>))"

subsection \<open>Events\<close>

text \<open>
  What can happen to the manager, inbound frames apart: a consumer calls a method or a
  clean-up closure, the transport reports on a socket, a timer fires. An open event
  comes to a connecting socket, a close event to a socket not yet closed (after the
  manager's \<^verbatim>\<open>close()\<close> as well as on failure); a timer fires once unless cleared.
  An event that cannot happen in the state leaves it as it is.
\<close>

datatype event =
    Connect conn_id
  | Disconnect conn_id
  | Subscribe conn_id "string list"
  | Unsubscribe conn_id "string list"
  | OnMessage conn_id string handler
  | Cleanup token
  | WsOpen sock
  | WsError sock
  | WsClose sock
  | TimerFire timer

definition set_readyState :: "sock \<Rightarrow> ready_state \<Rightarrow> manager \<Rightarrow> manager" where
  "set_readyState k r s = s\<lparr>sockets := (sockets s)(k := (sockets s k)\<lparr>readyState := r\<rparr>)\<rparr>"

fun fire :: "event \<Rightarrow> manager \<Rightarrow> manager" where
  "fire (Connect i) s = connect i s"
| "fire (Disconnect i) s = disconnect i s"
| "fire (Subscribe i chs) s = subscribe i chs s"
| "fire (Unsubscribe i chs) s = unsubscribe i chs s"
| "fire (OnMessage i ty h) s = snd (onMessage i ty h s)"
| "fire (Cleanup tok) s = cleanup tok s"
| "fire (WsOpen k) s =
     (if k < next_socket s \<and> readyState (sockets s k) = CONNECTING
      then ws_onopen (connection_id (sockets s k)) k (set_readyState k OPEN s) else s)"
| "fire (WsError k) s =
     (if k < next_socket s \<and> readyState (sockets s k) \<noteq> CLOSED
      then ws_onerror (connection_id (sockets s k)) s else s)"
| "fire (WsClose k) s =
     (if k < next_socket s \<and> readyState (sockets s k) \<noteq> CLOSED
      then ws_onclose (connection_id (sockets s k)) (set_readyState k CLOSED s) else s)"
| "fire (TimerFire t) s =
     (case timers s t of None \<Rightarrow> s | Some i \<Rightarrow> connect i (clearTimeout t s))"

fun run :: "event list \<Rightarrow> manager \<Rightarrow> manager" where
  "run [] s = s"
| "run (e # es) s = run es (fire e s)"

text \<open>
  An inbound frame comes to an open socket and runs \<^verbatim>\<open>ws.onmessage\<close>, callbacks
  included; \<open>None\<close> when that never returns.
\<close>

definition deliver :: "consumer \<Rightarrow> sock \<Rightarrow> frame \<Rightarrow> manager \<Rightarrow> manager option" where
  "deliver beh k f s =
     (if k < next_socket s \<and> readyState (sockets s k) = OPEN
      then ws_onmessage beh (connection_id (sockets s k)) f s else Some s)"

text \<open>The states the manager can be in, with a given consumer.\<close>

inductive reachable :: "consumer \<Rightarrow> manager \<Rightarrow> bool" for beh :: consumer where
  start: "reachable beh wsManager"
| step: "reachable beh s \<Longrightarrow> reachable beh (fire e s)"
| message: "reachable beh s \<Longrightarrow> deliver beh k f s = Some s' \<Longrightarrow> reachable beh s'"

subsection \<open>Observations\<close>

text \<open>The callbacks registered for an id under a type, in the order of iteration.\<close>

definition registered :: "manager \<Rightarrow> conn_id \<Rightarrow> string \<Rightarrow> handler list" where
  "registered s i ty =
     (case messageHandlers s i of None \<Rightarrow> []
      | Some a \<Rightarrow> (case handler_maps s a ty of None \<Rightarrow> [] | Some es \<Rightarrow> js_values es))"

text \<open>The calls that a step from \<open>s\<close> to \<open>s'\<close> added to the trace.\<close>

definition new_calls :: "manager \<Rightarrow> manager \<Rightarrow> (handler \<times> message) list" where
  "new_calls s s' = drop (length (invoked s)) (invoked s')"

text \<open>How many of the calls went to the callback \<open>h\<close>.\<close>

definition calls_of :: "handler \<Rightarrow> (handler \<times> message) list \<Rightarrow> nat" where
  "calls_of h cs = length (filter (\<lambda>c. fst c = h) cs)"

text \<open>The SubscriptionSet of an id as a set.\<close>

definition channel_set :: "manager \<Rightarrow> conn_id \<Rightarrow> string set" where
  "channel_set s i = (case subscribedChannels s i of None \<Rightarrow> {} | Some cs \<Rightarrow> set cs)"

text \<open>
  The transitions of the connection state machine: opening, the transport's events and
  the reconnect timer. The other events are the consumer editing its subscriptions and
  callbacks, and the explicit disconnect.
\<close>

fun lifecycle :: "event \<Rightarrow> bool" where
  "lifecycle (Connect _) = True"
| "lifecycle (WsOpen _) = True"
| "lifecycle (WsError _) = True"
| "lifecycle (WsClose _) = True"
| "lifecycle (TimerFire _) = True"
| "lifecycle _ = False"

text \<open>Every set of callbacks in the store iterates without repetition.\<close>

definition handler_sets_distinct :: "manager \<Rightarrow> bool" where
  "handler_sets_distinct s =
     (\<forall>a ty es. handler_maps s a ty = Some es \<longrightarrow> distinct (js_values es))"

text \<open>Nothing has been sent on a socket that is still connecting.\<close>

definition connecting_unsent :: "manager \<Rightarrow> bool" where
  "connecting_unsent s = (\<forall>k. readyState (sockets s k) = CONNECTING \<longrightarrow> sent (sockets s k) = [])"

definition live :: "websocket \<Rightarrow> bool" where
  "live w = (readyState w = OPEN \<or> readyState w = CONNECTING)"

text \<open>The sockets of an id that are open or connecting.\<close>

definition live_sockets :: "manager \<Rightarrow> conn_id \<Rightarrow> sock list" where
  "live_sockets s i =
     filter (\<lambda>k. connection_id (sockets s k) = i \<and> live (sockets s k)) [0..<next_socket s]"

text \<open>A state without its console, and an outcome with another console.\<close>

definition forget_console :: "manager \<Rightarrow> manager" where
  "forget_console s = s\<lparr>console := []\<rparr>"

fun with_console :: "log_entry list \<Rightarrow> completion \<Rightarrow> completion" where
  "with_console x (Normal s) = Normal (s\<lparr>console := x\<rparr>)"
| "with_console x (Thrown err s) = Thrown err (s\<lparr>console := x\<rparr>)"

subsection \<open>Scenarios\<close>

text \<open>
  Two feeds: id 1 subscribed to a channel, connected, with a callback; id 2 subscribed and
  still connecting.
\<close>

definition two_feeds :: manager where
  "two_feeds =
     run [Subscribe 1 [''portfolio''], WsOpen 0, OnMessage 1 ''portfolio_update'' 7,
          Subscribe 2 [''prices'']] wsManager"

text \<open>
  A feed that lost its socket: id 1 connected and subscribed to two channels, the socket
  closed unexpectedly, and the timer has started the reconnection (socket 1, connecting).
\<close>

definition dropped_feed :: manager where
  "dropped_feed =
     run [Connect 1, WsOpen 0, Subscribe 1 [''x'', ''y''], WsClose 0, TimerFire 1] wsManager"

text \<open>
  Three consumers: one whose callbacks all return without calling the manager, one in
  which the callback \<open>g\<close> throws as soon as it is called, and one in which the
  callback \<open>g\<close> calls the clean-up closure \<open>tok\<close> and returns.
\<close>

definition well_behaved :: consumer where
  "well_behaved h m = ([], False)"

definition thrower :: "handler \<Rightarrow> consumer" where
  "thrower g h m = ([], h = g)"



section \<open>Properties\<close>

lemmas manager_defs =
  wsManager_def connect_def disconnect_def subscribe_def unsubscribe_def onMessage_def
  cleanup_def ws_onopen_def ws_onmessage_def ws_onmessage_try_def ws_onerror_def
  ws_onclose_def new_WebSocket_def ws_close_def ws_send_def setTimeout_def clearTimeout_def
  set_readyState_def set_add_def set_delete_def JSON_parse_def get_type_def
  js_add_def js_delete_def js_values_def get_forEach_def call_handler_def

lemma js_values_Nil [simp]: "js_values [] = []"
  by (simp add: js_values_def)

lemma js_values_Cons [simp]:
  "js_values (None # es) = js_values es" "js_values (Some x # es) = x # js_values es"
  by (simp_all add: js_values_def)

lemma js_values_append [simp]: "js_values (xs @ ys) = js_values xs @ js_values ys"
  by (simp add: js_values_def)

lemma in_js_values: "x \<in> set (js_values es) \<longleftrightarrow> Some x \<in> set es"
  by (induction es) (auto simp: js_values_def split: option.splits)

lemma js_values_add:
  "js_values (js_add x es) =
     (if x \<in> set (js_values es) then js_values es else js_values es @ [x])"
  by (simp add: js_add_def in_js_values)

lemma js_values_delete: "js_values (js_delete x es) = removeAll x (js_values es)"
proof (induction es)
  case Nil
  show ?case by (simp add: js_delete_def)
next
  case (Cons e es)
  then show ?case by (cases e) (auto simp: js_delete_def)
qed

lemma js_add_idem: "js_add x (js_add x es) = js_add x es"
  by (simp add: js_add_def)



lemma forEach_from_quiet:
  assumes "handler_maps s a ty = Some es"
    and "\<forall>h\<in>set (js_values (drop n es)). beh h m = ([], False)"
  shows "forEach_from beh a ty n m s =
     Some (Normal (s\<lparr>invoked := invoked s @ map (\<lambda>h. (h, m)) (js_values (drop n es))\<rparr>))"
  using assms
proof (induction "length es - n" arbitrary: n s)
  case 0
  then show ?case by (subst forEach_from.simps) simp
next
  case (Suc d)
  then have lt: "n < length es" by simp
  have dr: "drop n es = es ! n # drop (Suc n) es"
    using lt by (simp add: Cons_nth_drop_Suc)
  have d: "d = length es - Suc n" using Suc.hyps(2) by simp
  show ?case
  proof (cases "es ! n")
    case None
    have "forEach_from beh a ty (Suc n) m s =
        Some (Normal (s\<lparr>invoked := invoked s @ map (\<lambda>h. (h, m)) (js_values (drop (Suc n) es))\<rparr>))"
      using Suc.prems dr None by (intro Suc.hyps(1) [OF d]) simp_all
    then show ?thesis
      by (subst forEach_from.simps) (simp add: lt None dr Suc.prems(1))
  next
    case (Some h)
    have q: "beh h m = ([], False)"
      using Suc.prems(2) dr Some by simp
    let ?s1 = "s\<lparr>invoked := invoked s @ [(h, m)]\<rparr>"
    have ch: "call_handler beh h m s = Normal ?s1"
      by (simp add: call_handler_def q)
    have "forEach_from beh a ty (Suc n) m ?s1 =
        Some (Normal (?s1\<lparr>invoked := invoked ?s1 @ map (\<lambda>h. (h, m)) (js_values (drop (Suc n) es))\<rparr>))"
      using Suc.prems dr Some by (intro Suc.hyps(1) [OF d]) simp_all
    then show ?thesis
      by (subst forEach_from.simps) (simp add: lt Some dr ch Suc.prems(1))
  qed
qed

lemma get_forEach_quiet:
  assumes "\<forall>h\<in>set (case handler_maps s a ty of None \<Rightarrow> [] | Some es \<Rightarrow> js_values es).
             beh h m = ([], False)"
  shows "get_forEach beh a ty m s =
     Some (Normal (s\<lparr>invoked := invoked s @ map (\<lambda>h. (h, m))
        (case handler_maps s a ty of None \<Rightarrow> [] | Some es \<Rightarrow> js_values es)\<rparr>))"
proof (cases "handler_maps s a ty")
  case None
  then show ?thesis by (simp add: get_forEach_def)
next
  case (Some es)
  with assms have "\<forall>h\<in>set (js_values (drop 0 es)). beh h m = ([], False)" by simp
  from forEach_from_quiet [where beh = beh and m = m, OF Some this] Some show ?thesis
    by (simp add: get_forEach_def)
qed

lemma ws_onmessage_quiet:
  assumes "\<forall>h\<in>set (registered s i t @ registered s i ''all'').
             beh h (JsonValue (Some t) b) = ([], False)"
  shows "ws_onmessage beh i (Json (JsonValue (Some t) b)) s =
     Some (s\<lparr>invoked := invoked s @
        map (\<lambda>h. (h, JsonValue (Some t) b)) (registered s i t @ registered s i ''all'')\<rparr>)"
proof (cases "messageHandlers s i")
  case None
  then show ?thesis
    by (simp add: ws_onmessage_def ws_onmessage_try_def JSON_parse_def registered_def)
next
  case (Some a)
  let ?m = "JsonValue (Some t) b"
  let ?T = "case handler_maps s a t of None \<Rightarrow> [] | Some es \<Rightarrow> js_values es"
  let ?A = "case handler_maps s a ''all'' of None \<Rightarrow> [] | Some es \<Rightarrow> js_values es"
  let ?s1 = "s\<lparr>invoked := invoked s @ map (\<lambda>h. (h, ?m)) ?T\<rparr>"
  have rt: "registered s i t = ?T" and ra: "registered s i ''all'' = ?A"
    using Some by (simp_all add: registered_def)
  have p1: "get_forEach beh a t ?m s = Some (Normal ?s1)"
    using assms by (intro get_forEach_quiet) (simp add: rt)
  have "\<forall>h\<in>set (case handler_maps ?s1 a ''all'' of None \<Rightarrow> [] | Some es \<Rightarrow> js_values es).
      beh h ?m = ([], False)"
    using assms by (simp add: ra)
  from get_forEach_quiet [where beh = beh and m = ?m and s = ?s1 and a = a and ty = "''all''", OF this]
  have p2: "get_forEach beh a ''all'' ?m ?s1 =
      Some (Normal (s\<lparr>invoked := invoked s @ map (\<lambda>h. (h, ?m)) (?T @ ?A)\<rparr>))"
    by simp
  show ?thesis
    using Some p1 p2
    by (simp add: ws_onmessage_def ws_onmessage_try_def JSON_parse_def get_type_def rt ra)
qed


subsection \<open>What holds after a dispatch whatever the callbacks do\<close>

lemma forEach_from_preserves:
  assumes "forEach_from beh a ty n m s = Some r"
    and "Q s"
    and "\<And>h u. Q u \<Longrightarrow> Q (state_of (call_handler beh h m u))"
  shows "Q (state_of r)"
proof -
  have "(\<forall>h u. Q u \<longrightarrow> Q (state_of (call_handler beh h m u))) \<longrightarrow> Q s \<longrightarrow> Q (state_of r)"
  proof (rule forEach_from.raw_induct
      [where P = "\<lambda>beh a ty n m s r.
         (\<forall>h u. Q u \<longrightarrow> Q (state_of (call_handler beh h m u))) \<longrightarrow> Q s \<longrightarrow> Q (state_of r)",
       OF _ assms(1)])
    fix rec beh a ty index m s r
    assume IH: "\<And>beh a ty index m s r. rec beh a ty index m s = Some r \<Longrightarrow>
        (\<forall>h u. Q u \<longrightarrow> Q (state_of (call_handler beh h m u))) \<longrightarrow> Q s \<longrightarrow> Q (state_of r)"
      and body: "(let entries = case handler_maps s a ty of None \<Rightarrow> [] | Some es \<Rightarrow> es
         in if index < length entries
            then case entries ! index of
                   None \<Rightarrow> rec beh a ty (Suc index) m s
                 | Some h \<Rightarrow>
                     (case call_handler beh h m s of
                        Normal s' \<Rightarrow> rec beh a ty (Suc index) m s'
                      | Thrown err s' \<Rightarrow> Some (Thrown err s'))
            else Some (Normal s)) = Some r"
    show "(\<forall>h u. Q u \<longrightarrow> Q (state_of (call_handler beh h m u))) \<longrightarrow> Q s \<longrightarrow> Q (state_of r)"
    proof (intro impI)
      assume st: "\<forall>h u. Q u \<longrightarrow> Q (state_of (call_handler beh h m u))" and q: "Q s"
      let ?es = "case handler_maps s a ty of None \<Rightarrow> [] | Some es \<Rightarrow> es"
      show "Q (state_of r)"
      proof (cases "index < length ?es")
        case False
        with body q show ?thesis by (auto simp: Let_def)
      next
        case True
        show ?thesis
        proof (cases "?es ! index")
          case None
          with True body have "rec beh a ty (Suc index) m s = Some r"
            by (simp add: Let_def)
          from IH [OF this] st q show ?thesis by blast
        next
          case (Some h)
          from st q have qc: "Q (state_of (call_handler beh h m s))" by blast
          show ?thesis
          proof (cases "call_handler beh h m s")
            case (Normal s')
            with True Some body have "rec beh a ty (Suc index) m s' = Some r"
              by (simp add: Let_def)
            from IH [OF this] st qc Normal show ?thesis by simp
          next
            case (Thrown err s')
            with True Some body qc show ?thesis
              by (auto simp: Let_def)
          qed
        qed
      qed
    qed
  qed
  with assms show ?thesis by blast
qed
lemma call_handler_preserves:
  assumes "Q s"
    and "\<And>c u. Q u \<Longrightarrow> Q (api c u)"
    and "\<And>x u. Q u \<Longrightarrow> Q (u\<lparr>invoked := x\<rparr>)"
  shows "Q (state_of (call_handler beh h m s))"
proof -
  have "\<And>u. Q u \<Longrightarrow> Q (foldl (\<lambda>u c. api c u) u cs)" for cs
    by (induction cs) (simp_all add: assms(2))
  then show ?thesis
    by (simp add: call_handler_def Let_def assms(1,3))
qed

lemma get_forEach_preserves:
  assumes "get_forEach beh a ty m s = Some r"
    and "Q s"
    and "\<And>c u. Q u \<Longrightarrow> Q (api c u)"
    and "\<And>x u. Q u \<Longrightarrow> Q (u\<lparr>invoked := x\<rparr>)"
  shows "Q (state_of r)"
proof (cases "handler_maps s a ty")
  case None
  with assms(1,2) show ?thesis by (auto simp: get_forEach_def)
next
  case (Some es)
  with assms(1) have "forEach_from beh a ty 0 m s = Some r"
    by (simp add: get_forEach_def)
  then show ?thesis
    using assms(2)
    by (rule forEach_from_preserves [where Q = Q])
      (rule call_handler_preserves [where Q = Q], simp_all add: assms(3,4))
qed

lemma ws_onmessage_try_Json:
  "messageHandlers s i = Some a \<Longrightarrow>
   ws_onmessage_try beh i (Json (JsonValue t b)) s =
     (case (case t of None \<Rightarrow> Some (Normal s)
            | Some ty \<Rightarrow> get_forEach beh a ty (JsonValue t b) s) of
        None \<Rightarrow> None
      | Some (Normal s1) \<Rightarrow> get_forEach beh a ''all'' (JsonValue t b) s1
      | Some (Thrown err s1) \<Rightarrow> Some (Thrown err s1))"
  by (simp add: ws_onmessage_try_def JSON_parse_def get_type_def)

lemma ws_onmessage_try_preserves:
  assumes "ws_onmessage_try beh i f s = Some r"
    and "Q s"
    and "\<And>c u. Q u \<Longrightarrow> Q (api c u)"
    and "\<And>x u. Q u \<Longrightarrow> Q (u\<lparr>invoked := x\<rparr>)"
  shows "Q (state_of r)"
proof (cases f)
  case (NotJson raw)
  with assms(1,2) show ?thesis
    by (auto simp: ws_onmessage_try_def JSON_parse_def)
next
  case (Json msg)
  show ?thesis
  proof (cases "messageHandlers s i")
    case None
    with Json assms(1,2) show ?thesis
      by (auto simp: ws_onmessage_try_def JSON_parse_def)
  next
    case (Some a)
    show ?thesis
    proof (cases msg)
      case JsonNull
      with Json Some assms(1,2) show ?thesis
        by (auto simp: ws_onmessage_try_def JSON_parse_def get_type_def)
    next
      case (JsonValue t b)
      let ?m = "JsonValue t b"
      let ?first = "case t of None \<Rightarrow> Some (Normal s) | Some ty \<Rightarrow> get_forEach beh a ty ?m s"
      have f: "f = Json ?m" using Json JsonValue by simp
      note unfold = ws_onmessage_try_Json [OF Some, of beh t b]
      from assms(1) obtain r1 where r1: "?first = Some r1"
        unfolding f unfold by (cases ?first) simp_all
      have q1: "Q (state_of r1)"
      proof (cases t)
        case None
        with r1 assms(2) show ?thesis by auto
      next
        case (Some ty)
        with r1 have "get_forEach beh a ty ?m s = Some r1" by simp
        then show ?thesis
          using assms(2)
          by (rule get_forEach_preserves [where Q = Q]) (simp_all add: assms(3,4))
      qed
      show ?thesis
      proof (cases r1)
        case (Normal s1)
        with r1 assms(1) have "get_forEach beh a ''all'' ?m s1 = Some r"
          unfolding f unfold by simp
        moreover have "Q s1" using q1 Normal by simp
        ultimately show ?thesis
          by (rule get_forEach_preserves [where Q = Q]) (simp_all add: assms(3,4))
      next
        case (Thrown err s1)
        with r1 assms(1) have "r = r1"
          unfolding f unfold by simp
        with q1 show ?thesis by simp
      qed
    qed
  qed
qed

lemma ws_onmessage_preserves:
  assumes "ws_onmessage beh i f s = Some s'"
    and "Q s"
    and "\<And>c u. Q u \<Longrightarrow> Q (api c u)"
    and "\<And>x u. Q u \<Longrightarrow> Q (u\<lparr>invoked := x\<rparr>)"
    and "\<And>x u. Q u \<Longrightarrow> Q (u\<lparr>console := x\<rparr>)"
  shows "Q s'"
proof -
  from assms(1) obtain r where r: "ws_onmessage_try beh i f s = Some r"
    by (cases "ws_onmessage_try beh i f s") (simp_all add: ws_onmessage_def)
  from r assms(2) have q: "Q (state_of r)"
    by (rule ws_onmessage_try_preserves [where Q = Q]) (simp_all add: assms(3,4))
  show ?thesis
  proof (cases r)
    case (Normal u)
    with assms(1) r q show ?thesis by (simp add: ws_onmessage_def)
  next
    case (Thrown err u)
    with assms(1) r have "s' = u\<lparr>console := console u @ [FailedToParse err]\<rparr>"
      by (simp add: ws_onmessage_def)
    with q Thrown show ?thesis by (simp add: assms(5))
  qed
qed

lemma deliver_preserves:
  assumes "deliver beh k f s = Some s'"
    and "Q s"
    and "\<And>c u. Q u \<Longrightarrow> Q (api c u)"
    and "\<And>x u. Q u \<Longrightarrow> Q (u\<lparr>invoked := x\<rparr>)"
    and "\<And>x u. Q u \<Longrightarrow> Q (u\<lparr>console := x\<rparr>)"
  shows "Q s'"
proof (cases "k < next_socket s \<and> readyState (sockets s k) = OPEN")
  case True
  with assms(1) have "ws_onmessage beh (connection_id (sockets s k)) f s = Some s'"
    by (simp add: deliver_def)
  then show ?thesis
    using assms(2) by (rule ws_onmessage_preserves [where Q = Q]) (simp_all add: assms(3,4,5))
next
  case False
  with assms(1,2) show ?thesis by (simp add: deliver_def)
qed


subsection \<open>Evaluation and the trace of calls\<close>

lemma calls_of_map: "calls_of h (map (\<lambda>x. (x, m)) hs) = count_list hs h"
  by (induction hs) (auto simp: calls_of_def)

lemma calls_of_append: "calls_of h (xs @ ys) = calls_of h xs + calls_of h ys"
  by (simp add: calls_of_def)

lemma count_list_distinct: "distinct hs \<Longrightarrow> h \<in> set hs \<Longrightarrow> count_list hs h = 1"
  by (induction hs) (auto simp: count_list_0_iff)


lemma new_calls_append [simp]: "new_calls s (s\<lparr>invoked := invoked s @ cs\<rparr>) = cs"
  by (simp add: new_calls_def)

lemma reachable_run: "reachable beh s \<Longrightarrow> reachable beh (run es s)"
  by (induction es arbitrary: s) (auto intro: reachable.step)

subsection \<open>What each method leaves alone in the store of handler maps\<close>

lemma handler_maps_connect [simp]: "handler_maps (connect i s) = handler_maps s"
  by (simp add: connect_def Let_def new_WebSocket_def ws_close_def clearTimeout_def
      split: option.splits prod.splits)

lemma handler_maps_ws_onopen [simp]: "handler_maps (ws_onopen i k s) = handler_maps s"
  by (simp add: ws_onopen_def Let_def ws_send_def split: option.splits)

lemma handler_maps_ws_onclose [simp]: "handler_maps (ws_onclose i s) = handler_maps s"
  by (simp add: ws_onclose_def Let_def setTimeout_def split: option.splits prod.splits)

lemma handler_maps_disconnect [simp]: "handler_maps (disconnect i s) = handler_maps s"
  by (simp add: disconnect_def Let_def ws_close_def clearTimeout_def split: option.splits)

lemma handler_maps_subscribe [simp]: "handler_maps (subscribe i chs s) = handler_maps s"
  by (simp add: subscribe_def Let_def ws_send_def split: option.splits)

lemma handler_maps_unsubscribe [simp]: "handler_maps (unsubscribe i chs s) = handler_maps s"
  by (simp add: unsubscribe_def Let_def ws_send_def split: option.splits)

subsection \<open>Invariant: the sets of callbacks hold each callback once\<close>

lemma distinct_js_add: "distinct (js_values es) \<Longrightarrow> distinct (js_values (js_add x es))"
  by (simp add: js_values_add)

lemma distinct_js_delete: "distinct (js_values es) \<Longrightarrow> distinct (js_values (js_delete x es))"
  by (simp add: js_values_delete distinct_removeAll)

lemma handler_sets_distinct_onMessage:
  "handler_sets_distinct s \<Longrightarrow> handler_sets_distinct (snd (onMessage i ty h s))"
  by (auto simp: handler_sets_distinct_def onMessage_def Let_def distinct_js_add
      split: option.splits if_splits)

lemma handler_sets_distinct_cleanup:
  "handler_sets_distinct s \<Longrightarrow> handler_sets_distinct (cleanup tok s)"
  by (auto simp: handler_sets_distinct_def cleanup_def distinct_js_delete
      split: option.splits token.splits if_splits)

lemma handler_sets_distinct_api:
  "handler_sets_distinct s \<Longrightarrow> handler_sets_distinct (api c s)"
proof (cases c)
  case (CallOnMessage i ty h)
  then show "handler_sets_distinct s \<Longrightarrow> ?thesis"
    by (simp add: handler_sets_distinct_onMessage)
next
  case (CallCleanup tok)
  then show "handler_sets_distinct s \<Longrightarrow> ?thesis"
    by (simp add: handler_sets_distinct_cleanup)
qed (simp_all add: handler_sets_distinct_def)

lemma handler_sets_distinct_fire:
  "handler_sets_distinct s \<Longrightarrow> handler_sets_distinct (fire e s)"
proof (cases e)
  case (OnMessage i ty h)
  then show "handler_sets_distinct s \<Longrightarrow> ?thesis"
    by (simp add: handler_sets_distinct_onMessage)
next
  case (Cleanup tok)
  then show "handler_sets_distinct s \<Longrightarrow> ?thesis"
    by (simp add: handler_sets_distinct_cleanup)
qed (simp_all add: handler_sets_distinct_def set_readyState_def ws_onerror_def
      clearTimeout_def split: option.splits)

lemma handler_sets_distinct_deliver:
  assumes "deliver beh k f s = Some s'" and "handler_sets_distinct s"
  shows "handler_sets_distinct s'"
  using assms
  by (rule deliver_preserves [where Q = handler_sets_distinct])
    (simp_all add: handler_sets_distinct_api, simp_all add: handler_sets_distinct_def)

lemma reachable_handler_sets_distinct: "reachable beh s \<Longrightarrow> handler_sets_distinct s"
proof (induction rule: reachable.induct)
  case start
  show ?case by (simp add: handler_sets_distinct_def wsManager_def)
next
  case (step s e)
  then show ?case by (simp add: handler_sets_distinct_fire)
next
  case (message s k f s')
  then show ?case by (simp add: handler_sets_distinct_deliver)
qed

lemma reachable_registered_distinct: "reachable beh s \<Longrightarrow> distinct (registered s i ty)"
  using reachable_handler_sets_distinct [of beh s]
  by (auto simp: registered_def handler_sets_distinct_def split: option.splits)

subsection \<open>What the transitions of the state machine leave alone\<close>

lemma intent_connect [simp]:
  "subscribedChannels (connect i s) = subscribedChannels s"
  "messageHandlers (connect i s) = messageHandlers s"
  by (simp_all add: connect_def Let_def new_WebSocket_def ws_close_def clearTimeout_def
      split: option.splits prod.splits)

lemma intent_ws_onopen [simp]:
  "subscribedChannels (ws_onopen i k s) = subscribedChannels s"
  "messageHandlers (ws_onopen i k s) = messageHandlers s"
  by (simp_all add: ws_onopen_def Let_def ws_send_def split: option.splits)

lemma intent_ws_onclose [simp]:
  "subscribedChannels (ws_onclose i s) = subscribedChannels s"
  "messageHandlers (ws_onclose i s) = messageHandlers s"
  by (simp_all add: ws_onclose_def Let_def setTimeout_def split: option.splits prod.splits)

lemma lifecycle_preserves_intent:
  "lifecycle e \<Longrightarrow>
     subscribedChannels (fire e s) = subscribedChannels s
     \<and> messageHandlers (fire e s) = messageHandlers s
     \<and> handler_maps (fire e s) = handler_maps s"
  by (cases e)
    (simp_all add: set_readyState_def ws_onerror_def clearTimeout_def split: option.splits)

lemma sockets_ws_onclose [simp]: "sockets (ws_onclose i s) = sockets s"
  by (simp add: ws_onclose_def Let_def setTimeout_def split: option.splits prod.splits)

lemma sockets_onMessage [simp]: "sockets (snd (onMessage i ty h s)) = sockets s"
  by (simp add: onMessage_def Let_def split: option.splits)

lemma sockets_cleanup [simp]: "sockets (cleanup tok s) = sockets s"
  by (simp add: cleanup_def split: option.splits token.splits)

subsection \<open>Invariant: nothing is sent on a socket before it opens\<close>

lemma cu_ws_send: "connecting_unsent s \<Longrightarrow> connecting_unsent (ws_send k f s)"
  by (simp add: connecting_unsent_def ws_send_def)

lemma cu_sockets_eq:
  "sockets s' = sockets s \<Longrightarrow> connecting_unsent s \<Longrightarrow> connecting_unsent s'"
  by (simp add: connecting_unsent_def)

lemma cu_set_readyState:
  "r \<noteq> CONNECTING \<Longrightarrow> connecting_unsent s \<Longrightarrow> connecting_unsent (set_readyState k r s)"
  by (simp add: connecting_unsent_def set_readyState_def)

lemma cu_connect: "connecting_unsent s \<Longrightarrow> connecting_unsent (connect i s)"
  by (simp add: connecting_unsent_def connect_def Let_def new_WebSocket_def ws_close_def
      clearTimeout_def split: option.splits)

lemma cu_disconnect: "connecting_unsent s \<Longrightarrow> connecting_unsent (disconnect i s)"
  by (simp add: connecting_unsent_def disconnect_def Let_def ws_close_def
      clearTimeout_def split: option.splits)

lemma cu_subscribe: "connecting_unsent s \<Longrightarrow> connecting_unsent (subscribe i chs s)"
proof -
  assume a: "connecting_unsent s"
  let ?s1 = "s\<lparr>subscribedChannels := (subscribedChannels s)(i \<mapsto>
      foldl (\<lambda>cs ch. set_add ch cs)
        (case subscribedChannels s i of None \<Rightarrow> [] | Some cs \<Rightarrow> cs) chs)\<rparr>"
  have "connecting_unsent ?s1"
    using a by (simp add: connecting_unsent_def)
  then show ?thesis
    by (simp add: subscribe_def Let_def cu_connect cu_ws_send split: option.splits)
qed

lemma cu_unsubscribe: "connecting_unsent s \<Longrightarrow> connecting_unsent (unsubscribe i chs s)"
  by (simp add: connecting_unsent_def unsubscribe_def Let_def ws_send_def
      split: option.splits)

lemma cu_ws_onopen: "connecting_unsent s \<Longrightarrow> connecting_unsent (ws_onopen i k s)"
  by (simp add: connecting_unsent_def ws_onopen_def Let_def ws_send_def split: option.splits)

lemma cu_ws_onerror: "connecting_unsent s \<Longrightarrow> connecting_unsent (ws_onerror i s)"
  by (simp add: connecting_unsent_def ws_onerror_def)

lemma cu_api: "connecting_unsent s \<Longrightarrow> connecting_unsent (api c s)"
  by (cases c)
    (simp_all add: cu_connect cu_disconnect cu_subscribe cu_unsubscribe
       cu_sockets_eq [of "snd (onMessage _ _ _ _)"] cu_sockets_eq [of "cleanup _ _"])

lemma cu_fire: "connecting_unsent s \<Longrightarrow> connecting_unsent (fire e s)"
proof (cases e)
  case (TimerFire t)
  assume a: "connecting_unsent s"
  have "connecting_unsent (clearTimeout t s)"
    using a by (simp add: connecting_unsent_def clearTimeout_def)
  then show ?thesis
    using a TimerFire by (simp add: cu_connect split: option.splits)
next
  case (WsOpen k)
  assume a: "connecting_unsent s"
  then show ?thesis
    using WsOpen by (simp add: cu_ws_onopen cu_set_readyState)
next
  case (WsClose k)
  assume a: "connecting_unsent s"
  then have "connecting_unsent (set_readyState k CLOSED s)"
    by (simp add: cu_set_readyState)
  then show ?thesis
    using a WsClose by (simp add: cu_sockets_eq [of "ws_onclose _ _"])
qed (simp_all add: cu_connect cu_disconnect cu_subscribe cu_unsubscribe
       cu_sockets_eq [of "snd (onMessage _ _ _ _)"] cu_sockets_eq [of "cleanup _ _"]
       cu_ws_onerror)

lemma cu_deliver:
  assumes "deliver beh k f s = Some s'" and "connecting_unsent s"
  shows "connecting_unsent s'"
  using assms
  by (rule deliver_preserves [where Q = connecting_unsent])
    (simp_all add: cu_api, simp_all add: connecting_unsent_def)

lemma reachable_connecting_unsent: "reachable beh s \<Longrightarrow> connecting_unsent s"
proof (induction rule: reachable.induct)
  case start
  show ?case by (simp add: connecting_unsent_def wsManager_def)
next
  case (step s e)
  then show ?case by (simp add: cu_fire)
next
  case (message s k f s')
  then show ?case by (simp add: cu_deliver)
qed

subsection \<open>Callbacks that do not call the manager\<close>

lemma call_handler_no_calls:
  "fst (beh h m) = [] \<Longrightarrow>
   call_handler beh h m s =
     (if snd (beh h m) then Thrown (ThrownByCallback h) (s\<lparr>invoked := invoked s @ [(h, m)]\<rparr>)
      else Normal (s\<lparr>invoked := invoked s @ [(h, m)]\<rparr>))"
  by (simp add: call_handler_def)

lemma forEach_from_no_calls:
  assumes "\<forall>h. fst (beh h m) = []"
    and "(case handler_maps s a ty of None \<Rightarrow> [] | Some es \<Rightarrow> es) = es"
  shows "\<exists>r tr. forEach_from beh a ty n m s = Some r
           \<and> state_of r = s\<lparr>invoked := invoked s @ tr\<rparr>"
  using assms(2)
proof (induction "length es - n" arbitrary: n s)
  case 0
  then have "forEach_from beh a ty n m s = Some (Normal s)"
    by (subst forEach_from.simps) simp
  then have "forEach_from beh a ty n m s = Some (Normal s)
      \<and> state_of (Normal s) = s\<lparr>invoked := invoked s @ []\<rparr>"
    by simp
  then show ?case by blast
next
  case (Suc d)
  then have lt: "n < length es" by simp
  have d: "d = length es - Suc n" using Suc.hyps(2) by simp
  note IH = Suc.hyps(1) [OF d]
  show ?case
  proof (cases "es ! n")
    case None
    from IH [of s, OF Suc.prems] obtain r tr where
      "forEach_from beh a ty (Suc n) m s = Some r" "state_of r = s\<lparr>invoked := invoked s @ tr\<rparr>"
      by blast
    moreover have "forEach_from beh a ty n m s = forEach_from beh a ty (Suc n) m s"
      by (subst forEach_from.simps) (simp add: Suc.prems lt None)
    ultimately show ?thesis by auto
  next
    case (Some h)
    let ?s1 = "s\<lparr>invoked := invoked s @ [(h, m)]\<rparr>"
    have ch: "call_handler beh h m s =
        (if snd (beh h m) then Thrown (ThrownByCallback h) ?s1 else Normal ?s1)"
      using assms(1) by (simp add: call_handler_no_calls)
    show ?thesis
    proof (cases "snd (beh h m)")
      case True
      have "forEach_from beh a ty n m s = Some (Thrown (ThrownByCallback h) ?s1)"
        by (subst forEach_from.simps) (simp add: Suc.prems lt Some ch True)
      then have "forEach_from beh a ty n m s = Some (Thrown (ThrownByCallback h) ?s1)
          \<and> state_of (Thrown (ThrownByCallback h) ?s1) = s\<lparr>invoked := invoked s @ [(h, m)]\<rparr>"
        by simp
      then show ?thesis by blast
    next
      case False
      have "(case handler_maps ?s1 a ty of None \<Rightarrow> [] | Some es \<Rightarrow> es) = es"
        using Suc.prems by simp
      from IH [of ?s1, OF this] obtain r tr where
        r: "forEach_from beh a ty (Suc n) m ?s1 = Some r"
        and st: "state_of r = ?s1\<lparr>invoked := invoked ?s1 @ tr\<rparr>"
        by blast
      have "forEach_from beh a ty n m s = Some r"
        by (subst forEach_from.simps) (simp add: Suc.prems lt Some ch False r)
      moreover have "state_of r = s\<lparr>invoked := invoked s @ ((h, m) # tr)\<rparr>"
        using st by simp
      ultimately show ?thesis by blast
    qed
  qed
qed

lemma get_forEach_no_calls:
  assumes "\<forall>h. fst (beh h m) = []"
  shows "\<exists>r tr. get_forEach beh a ty m s = Some r
           \<and> state_of r = s\<lparr>invoked := invoked s @ tr\<rparr>"
proof (cases "handler_maps s a ty")
  case None
  then have "get_forEach beh a ty m s = Some (Normal s)
      \<and> state_of (Normal s) = s\<lparr>invoked := invoked s @ []\<rparr>"
    by (simp add: get_forEach_def)
  then show ?thesis by blast
next
  case (Some es)
  then have "(case handler_maps s a ty of None \<Rightarrow> [] | Some es \<Rightarrow> es) = es" by simp
  from forEach_from_no_calls [where beh = beh and m = m and n = 0, OF assms this] Some
  show ?thesis
    by (simp add: get_forEach_def)
qed

lemma ws_onmessage_try_no_calls:
  assumes "\<forall>h m. fst (beh h m) = []"
  shows "\<exists>r tr. ws_onmessage_try beh i f s = Some r
           \<and> state_of r = s\<lparr>invoked := invoked s @ tr\<rparr>"
proof -
  have direct: ?thesis
    if "ws_onmessage_try beh i f s = Some r0" and "state_of r0 = s" for r0
  proof -
    from that have "ws_onmessage_try beh i f s = Some r0
        \<and> state_of r0 = s\<lparr>invoked := invoked s @ []\<rparr>"
      by simp
    then show ?thesis by blast
  qed
  show ?thesis
  proof (cases f)
    case (NotJson raw)
    then show ?thesis
      by (intro direct [of "Thrown SyntaxError s"])
        (simp_all add: ws_onmessage_try_def JSON_parse_def)
  next
    case (Json msg)
    show ?thesis
    proof (cases "messageHandlers s i")
      case None
      with Json show ?thesis
        by (intro direct [of "Normal s"]) (simp_all add: ws_onmessage_try_def JSON_parse_def)
    next
      case (Some a)
      show ?thesis
      proof (cases msg)
        case JsonNull
        with Json Some show ?thesis
          by (intro direct [of "Thrown TypeError s"])
            (simp_all add: ws_onmessage_try_def JSON_parse_def get_type_def)
      next
        case (JsonValue t b)
        let ?m = "JsonValue t b"
        have f: "f = Json ?m" using Json JsonValue by simp
        note unfold = ws_onmessage_try_Json [OF Some, of beh t b]
        have nc: "\<forall>h. fst (beh h ?m) = []" using assms by simp
        have "\<exists>r1 tr1. (case t of None \<Rightarrow> Some (Normal s)
                | Some ty \<Rightarrow> get_forEach beh a ty ?m s) = Some r1
              \<and> state_of r1 = s\<lparr>invoked := invoked s @ tr1\<rparr>"
        proof (cases t)
          case None
          then have "(case t of None \<Rightarrow> Some (Normal s)
                | Some ty \<Rightarrow> get_forEach beh a ty ?m s) = Some (Normal s)
              \<and> state_of (Normal s) = s\<lparr>invoked := invoked s @ []\<rparr>"
            by simp
          then show ?thesis by blast
        next
          case (Some ty)
          with get_forEach_no_calls [where beh = beh and m = ?m and a = a and ty = ty and s = s, OF nc]
          show ?thesis by simp
        qed
        then obtain r1 tr1 where
          r1: "(case t of None \<Rightarrow> Some (Normal s)
                | Some ty \<Rightarrow> get_forEach beh a ty ?m s) = Some r1"
          and s1: "state_of r1 = s\<lparr>invoked := invoked s @ tr1\<rparr>"
          by blast
        show ?thesis
        proof (cases r1)
          case (Thrown err u)
          with r1 s1 have "ws_onmessage_try beh i f s = Some r1
              \<and> state_of r1 = s\<lparr>invoked := invoked s @ tr1\<rparr>"
            unfolding f unfold by simp
          then show ?thesis by blast
        next
          case (Normal u)
          from get_forEach_no_calls
            [where beh = beh and m = ?m and a = a and ty = "''all''" and s = u, OF nc]
          obtain r tr where
            r: "get_forEach beh a ''all'' ?m u = Some r"
            and st: "state_of r = u\<lparr>invoked := invoked u @ tr\<rparr>"
            by blast
          have u: "u = s\<lparr>invoked := invoked s @ tr1\<rparr>"
            using s1 Normal by simp
          have "ws_onmessage_try beh i f s = Some r"
            unfolding f unfold using r1 Normal r by simp
          moreover have "state_of r = s\<lparr>invoked := invoked s @ (tr1 @ tr)\<rparr>"
            using st u by simp
          ultimately show ?thesis by blast
        qed
      qed
    qed
  qed
qed

lemma ws_onmessage_no_calls:
  assumes "\<forall>h m. fst (beh h m) = []"
  shows "\<exists>tr lg. ws_onmessage beh i f s =
           Some (s\<lparr>invoked := invoked s @ tr, console := console s @ lg\<rparr>)"
proof -
  from ws_onmessage_try_no_calls [OF assms, of i f s] obtain r tr where
    r: "ws_onmessage_try beh i f s = Some r"
    and st: "state_of r = s\<lparr>invoked := invoked s @ tr\<rparr>"
    by blast
  show ?thesis
  proof (cases r)
    case (Normal u)
    with r st have "ws_onmessage beh i f s =
        Some (s\<lparr>invoked := invoked s @ tr, console := console s @ []\<rparr>)"
      by (simp add: ws_onmessage_def)
    then show ?thesis by blast
  next
    case (Thrown err u)
    with r st have "ws_onmessage beh i f s =
        Some (s\<lparr>invoked := invoked s @ tr, console := console s @ [FailedToParse err]\<rparr>)"
      by (simp add: ws_onmessage_def)
    then show ?thesis by blast
  qed
qed

lemma deliver_no_calls:
  assumes "\<forall>h m. fst (beh h m) = []"
  shows "\<exists>tr lg. deliver beh k f s =
           Some (s\<lparr>invoked := invoked s @ tr, console := console s @ lg\<rparr>)"
proof (cases "k < next_socket s \<and> readyState (sockets s k) = OPEN")
  case True
  with ws_onmessage_no_calls [OF assms, of "connection_id (sockets s k)" f s]
  show ?thesis by (simp add: deliver_def)
next
  case False
  then have "deliver beh k f s = Some s"
    by (auto simp: deliver_def)
  then have "deliver beh k f s =
      Some (s\<lparr>invoked := invoked s @ [], console := console s @ []\<rparr>)"
    by simp
  then show ?thesis by blast
qed

subsection \<open>The console does not matter to a dispatch\<close>

lemma connect_console: "connect i (s\<lparr>console := x\<rparr>) = (connect i s)\<lparr>console := x\<rparr>"
  by (simp add: connect_def Let_def new_WebSocket_def ws_close_def clearTimeout_def
      split: option.splits)

lemma disconnect_console: "disconnect i (s\<lparr>console := x\<rparr>) = (disconnect i s)\<lparr>console := x\<rparr>"
  by (simp add: disconnect_def Let_def ws_close_def clearTimeout_def split: option.splits)

lemma subscribe_console:
  "subscribe i chs (s\<lparr>console := x\<rparr>) = (subscribe i chs s)\<lparr>console := x\<rparr>"
proof -
  have swap: "s\<lparr>console := x, subscribedChannels := v\<rparr> =
      (s\<lparr>subscribedChannels := v\<rparr>)\<lparr>console := x\<rparr>" for v
    by simp
  show ?thesis
    by (simp add: subscribe_def Let_def ws_send_def swap connect_console split: option.splits)
qed

lemma unsubscribe_console:
  "unsubscribe i chs (s\<lparr>console := x\<rparr>) = (unsubscribe i chs s)\<lparr>console := x\<rparr>"
  by (simp add: unsubscribe_def Let_def ws_send_def split: option.splits)

lemma onMessage_console:
  "snd (onMessage i ty h (s\<lparr>console := x\<rparr>)) = (snd (onMessage i ty h s))\<lparr>console := x\<rparr>"
  by (cases "messageHandlers s i") (simp_all add: onMessage_def Let_def)

lemma cleanup_console: "cleanup tok (s\<lparr>console := x\<rparr>) = (cleanup tok s)\<lparr>console := x\<rparr>"
  by (simp add: cleanup_def split: token.splits option.splits)

lemma api_console: "api c (s\<lparr>console := x\<rparr>) = (api c s)\<lparr>console := x\<rparr>"
  by (cases c)
    (simp_all add: connect_console disconnect_console subscribe_console unsubscribe_console
       onMessage_console cleanup_console)

lemma foldl_api_console:
  "foldl (\<lambda>u c. api c u) (s\<lparr>console := x\<rparr>) cs = (foldl (\<lambda>u c. api c u) s cs)\<lparr>console := x\<rparr>"
  by (induction cs arbitrary: s) (simp_all add: api_console)

lemma call_handler_console:
  "call_handler beh h m (s\<lparr>console := x\<rparr>) = with_console x (call_handler beh h m s)"
proof -
  have swap: "s\<lparr>console := x, invoked := v\<rparr> = (s\<lparr>invoked := v\<rparr>)\<lparr>console := x\<rparr>" for v
    by simp
  show ?thesis
    by (simp add: call_handler_def Let_def swap foldl_api_console)
qed

lemma forEach_from_console:
  assumes "forEach_from beh a ty n m s = Some r"
  shows "forEach_from beh a ty n m (s\<lparr>console := x\<rparr>) = Some (with_console x r)"
proof (rule forEach_from.raw_induct
    [where P = "\<lambda>beh a ty n m s r.
       forEach_from beh a ty n m (s\<lparr>console := x\<rparr>) = Some (with_console x r)",
     OF _ assms])
  fix rec beh a ty index m s r
  assume IH: "\<And>beh a ty index m s r. rec beh a ty index m s = Some r \<Longrightarrow>
      forEach_from beh a ty index m (s\<lparr>console := x\<rparr>) = Some (with_console x r)"
    and body: "(let entries = case handler_maps s a ty of None \<Rightarrow> [] | Some es \<Rightarrow> es
       in if index < length entries
          then case entries ! index of
                 None \<Rightarrow> rec beh a ty (Suc index) m s
               | Some h \<Rightarrow>
                   (case call_handler beh h m s of
                      Normal s' \<Rightarrow> rec beh a ty (Suc index) m s'
                    | Thrown err s' \<Rightarrow> Some (Thrown err s'))
          else Some (Normal s)) = Some r"
  let ?es = "case handler_maps s a ty of None \<Rightarrow> [] | Some es \<Rightarrow> es"
  show "forEach_from beh a ty index m (s\<lparr>console := x\<rparr>) = Some (with_console x r)"
  proof (cases "index < length ?es")
    case False
    with body have "r = Normal s" by (auto simp: Let_def)
    with False show ?thesis
      by (subst forEach_from.simps) simp
  next
    case True
    show ?thesis
    proof (cases "?es ! index")
      case None
      with True body have "rec beh a ty (Suc index) m s = Some r"
        by (simp add: Let_def)
      from IH [OF this] True None show ?thesis
        by (subst forEach_from.simps) simp
    next
      case (Some h)
      show ?thesis
      proof (cases "call_handler beh h m s")
        case (Normal s')
        with True Some body have "rec beh a ty (Suc index) m s' = Some r"
          by (simp add: Let_def)
        from IH [OF this] True Some Normal show ?thesis
          by (subst forEach_from.simps) (simp add: call_handler_console)
      next
        case (Thrown err s')
        with True Some body have "r = Thrown err s'"
          by (auto simp: Let_def)
        with True Some Thrown show ?thesis
          by (subst forEach_from.simps) (simp add: call_handler_console)
      qed
    qed
  qed
qed

lemma with_console_twice [simp]: "with_console x (with_console y r) = with_console x r"
  by (cases r) simp_all

lemma forEach_from_console_eq:
  "forEach_from beh a ty n m (s\<lparr>console := x\<rparr>) =
     map_option (with_console x) (forEach_from beh a ty n m s)"
proof (cases "forEach_from beh a ty n m s")
  case (Some r)
  then show ?thesis by (simp add: forEach_from_console)
next
  case None
  show ?thesis
  proof (cases "forEach_from beh a ty n m (s\<lparr>console := x\<rparr>)")
    case None
    with \<open>forEach_from beh a ty n m s = None\<close> show ?thesis by simp
  next
    case (Some r')
    from forEach_from_console [OF Some, of "console s"]
    have "forEach_from beh a ty n m s = Some (with_console (console s) r')"
      by simp
    with None show ?thesis by simp
  qed
qed

lemma get_forEach_console_eq:
  "get_forEach beh a ty m (s\<lparr>console := x\<rparr>) =
     map_option (with_console x) (get_forEach beh a ty m s)"
  by (simp add: get_forEach_def forEach_from_console_eq split: option.splits)

lemma ws_onmessage_try_console_eq:
  "ws_onmessage_try beh i f (s\<lparr>console := x\<rparr>) =
     map_option (with_console x) (ws_onmessage_try beh i f s)"
proof (cases f)
  case (NotJson raw)
  then show ?thesis by (simp add: ws_onmessage_try_def JSON_parse_def)
next
  case (Json msg)
  show ?thesis
  proof (cases "messageHandlers s i")
    case None
    with Json show ?thesis by (simp add: ws_onmessage_try_def JSON_parse_def)
  next
    case (Some a)
    show ?thesis
    proof (cases msg)
      case JsonNull
      with Json Some show ?thesis
        by (simp add: ws_onmessage_try_def JSON_parse_def get_type_def)
    next
      case (JsonValue t b)
      let ?m = "JsonValue t b"
      let ?first = "\<lambda>s. case t of None \<Rightarrow> Some (Normal s) | Some ty \<Rightarrow> get_forEach beh a ty ?m s"
      have f: "f = Json ?m" using Json JsonValue by simp
      have Some': "messageHandlers (s\<lparr>console := x\<rparr>) i = Some a" using Some by simp
      have first: "?first (s\<lparr>console := x\<rparr>) = map_option (with_console x) (?first s)"
        by (cases t) (simp_all add: get_forEach_console_eq)
      show ?thesis
      proof (cases "?first s")
        case None
        with first show ?thesis
          unfolding f ws_onmessage_try_Json [OF Some] ws_onmessage_try_Json [OF Some'] by simp
      next
        case (Some r1)
        show ?thesis
        proof (cases r1)
          case (Normal s1)
          with Some first show ?thesis
            unfolding f ws_onmessage_try_Json [OF \<open>messageHandlers s i = Some a\<close>]
              ws_onmessage_try_Json [OF Some']
            by (simp add: get_forEach_console_eq)
        next
          case (Thrown err s1)
          with Some first show ?thesis
            unfolding f ws_onmessage_try_Json [OF \<open>messageHandlers s i = Some a\<close>]
              ws_onmessage_try_Json [OF Some']
            by simp
        qed
      qed
    qed
  qed
qed

lemma ws_onmessage_forget_console:
  "map_option forget_console (ws_onmessage beh i f (s\<lparr>console := x\<rparr>)) =
     map_option forget_console (ws_onmessage beh i f s)"
proof (cases "ws_onmessage_try beh i f s")
  case None
  then show ?thesis
    by (simp add: ws_onmessage_def ws_onmessage_try_console_eq)
next
  case (Some r)
  then show ?thesis
    by (cases r) (simp_all add: ws_onmessage_def ws_onmessage_try_console_eq forget_console_def)
qed

lemma invoked_forget_console [simp]: "invoked (forget_console s) = invoked s"
  by (simp add: forget_console_def)

lemma ws_onmessage_invoked_console:
  "map_option invoked (ws_onmessage beh i f (s\<lparr>console := x\<rparr>)) =
     map_option invoked (ws_onmessage beh i f s)"
proof -
  have "map_option invoked (map_option forget_console (ws_onmessage beh i f (s\<lparr>console := x\<rparr>))) =
      map_option invoked (map_option forget_console (ws_onmessage beh i f s))"
    by (simp only: ws_onmessage_forget_console)
  then show ?thesis
    by (simp add: option.map_comp comp_def)
qed

lemma ws_onmessage_NotJson:
  "ws_onmessage beh i (NotJson raw) s =
     Some (s\<lparr>console := console s @ [FailedToParse SyntaxError]\<rparr>)"
  by (simp add: ws_onmessage_def ws_onmessage_try_def JSON_parse_def)

text \<open>
  Claim C7. A frame that is not JSON makes \<^verbatim>\<open>JSON.parse\<close> throw inside the
  \<^verbatim>\<open>try\<close> block, before any callback is looked up; the \<^verbatim>\<open>catch\<close> takes the
  exception, so \<^verbatim>\<open>ws.onmessage\<close> returns, having changed nothing but the console, to
  which it appended the error. No callback is called for the frame, the id is connected
  after it exactly when it was before, and whatever frame comes next is handled as if
  the malformed one had never arrived, whatever the callbacks do: the same state up to
  the console and the same calls, or in both cases a dispatch that does not return.
\<close>

theorem malformed_frame_dropped:
  "ws_onmessage_try beh i (NotJson raw) s = Some (Thrown SyntaxError s)
   \<and> ws_onmessage beh i (NotJson raw) s =
       Some (s\<lparr>console := console s @ [FailedToParse SyntaxError]\<rparr>)
   \<and> map_option (new_calls s) (ws_onmessage beh i (NotJson raw) s) = Some []
   \<and> map_option (isConnected i) (ws_onmessage beh i (NotJson raw) s) = Some (isConnected i s)
   \<and> map_option forget_console
         (Option.bind (ws_onmessage beh i (NotJson raw) s) (ws_onmessage beh i f)) =
       map_option forget_console (ws_onmessage beh i f s)
   \<and> map_option (new_calls s)
         (Option.bind (ws_onmessage beh i (NotJson raw) s) (ws_onmessage beh i f)) =
       map_option (new_calls s) (ws_onmessage beh i f s)"
proof -
  have calls: "map_option (new_calls s) (ws_onmessage beh i f (s\<lparr>console := x\<rparr>)) =
      map_option (new_calls s) (ws_onmessage beh i f s)" for x
    using ws_onmessage_invoked_console [where beh = beh and i = i and f = f and s = s and x = x]
    by (simp add: new_calls_def option.map_comp comp_def map_option_case split: option.splits)
  show ?thesis
    by (simp add: ws_onmessage_NotJson ws_onmessage_forget_console calls new_calls_def
        isConnected_def ws_onmessage_try_def JSON_parse_def cong: option.case_cong)
qed

subsection \<open>Dispatch of inbound frames\<close>







subsection \<open>Subscribing while connected\<close>

lemma set_foldl_set_add: "set (foldl (\<lambda>cs ch. set_add ch cs) cs chs) = set cs \<union> set chs"
  by (induction chs arbitrary: cs) (auto simp: set_add_def)

lemma subscribe_open:
  assumes "connections s i = Some ws" and "readyState (sockets s ws) = OPEN"
  shows "subscribe i chs s =
     s\<lparr>subscribedChannels := (subscribedChannels s)(i \<mapsto>
          foldl (\<lambda>cs ch. set_add ch cs)
            (case subscribedChannels s i of None \<Rightarrow> [] | Some cs \<Rightarrow> cs) chs),
       sockets := (sockets s)(ws :=
          (sockets s ws)\<lparr>sent := sent (sockets s ws) @ [ClientFrame ''subscribe'' chs]\<rparr>)\<rparr>"
  using assms by (simp add: subscribe_def Let_def ws_send_def)

lemma channel_set_subscribe_open:
  assumes "connections s i = Some ws" and "readyState (sockets s ws) = OPEN"
  shows "channel_set (subscribe i chs s) i = channel_set s i \<union> set chs"
  by (simp add: subscribe_open [OF assms] channel_set_def set_foldl_set_add
      split: option.splits)

text \<open>
  Claim C3, as the specification has it: while connected, \<^verbatim>\<open>subscribe\<close> sends only the
  channels that are new to the SubscriptionSet, so a second \<^verbatim>\<open>subscribe(1, ["a"])\<close>
  sends nothing. It sends a second frame for \<^verbatim>\<open>"a"\<close>: the source sends the argument
  \<^verbatim>\<open>channels\<close> as it came, and computes no difference anywhere.
\<close>

theorem subscribe_delta_counterexample:
  "sent (sockets
      (run [Connect 1, WsOpen 0, Subscribe 1 [''a''], Subscribe 1 [''a'']] wsManager) 0) =
     [ClientFrame ''subscribe'' [''a''], ClientFrame ''subscribe'' [''a'']]"
  by (simp add: manager_defs Let_def)

text \<open>
  Claim C3, amended. For an id whose socket is open, \<^verbatim>\<open>subscribe(id, channels)\<close> adds
  the channels to the SubscriptionSet and sends one subscribe frame that lists exactly
  the channels of the call, whether they were in the set or not. Two calls in a row with
  the same channels add them once to the set and send two such frames.
\<close>

theorem subscribe_sends_requested_channels:
  assumes "connections s i = Some ws" and "readyState (sockets s ws) = OPEN"
  shows "sent (sockets (subscribe i chs s) ws) =
           sent (sockets s ws) @ [ClientFrame ''subscribe'' chs]
    \<and> channel_set (subscribe i chs s) i = channel_set s i \<union> set chs
    \<and> sent (sockets (subscribe i chs (subscribe i chs s)) ws) =
        sent (sockets s ws) @ [ClientFrame ''subscribe'' chs, ClientFrame ''subscribe'' chs]
    \<and> channel_set (subscribe i chs (subscribe i chs s)) i = channel_set s i \<union> set chs"
proof -
  let ?s1 = "subscribe i chs s"
  have c1: "connections ?s1 i = Some ws" and o1: "readyState (sockets ?s1 ws) = OPEN"
    using assms by (simp_all add: subscribe_open [OF assms])
  have s1: "sent (sockets ?s1 ws) = sent (sockets s ws) @ [ClientFrame ''subscribe'' chs]"
    by (simp add: subscribe_open [OF assms])
  have s2: "sent (sockets (subscribe i chs ?s1) ws) =
      sent (sockets ?s1 ws) @ [ClientFrame ''subscribe'' chs]"
    by (simp add: subscribe_open [OF c1 o1])
  show ?thesis
    using s1 s2 channel_set_subscribe_open [OF assms] channel_set_subscribe_open [OF c1 o1]
    by auto
qed

theorem subscribe_sends_requested_channels_witness:
  "connections (run [Connect 1, WsOpen 0] wsManager) 1 = Some 0
   \<and> readyState (sockets (run [Connect 1, WsOpen 0] wsManager) 0) = OPEN
   \<and> sent (sockets
        (subscribe 1 [''a''] (subscribe 1 [''a''] (run [Connect 1, WsOpen 0] wsManager))) 0) =
       [ClientFrame ''subscribe'' [''a''], ClientFrame ''subscribe'' [''a'']]
   \<and> channel_set
        (subscribe 1 [''a''] (subscribe 1 [''a''] (run [Connect 1, WsOpen 0] wsManager))) 1 =
       {''a''}"
proof -
  have c: "connections (run [Connect 1, WsOpen 0] wsManager) 1 = Some 0"
    by (simp add: manager_defs)
  have r: "readyState (sockets (run [Connect 1, WsOpen 0] wsManager) 0) = OPEN"
    by (simp add: manager_defs)
  have e: "sent (sockets (run [Connect 1, WsOpen 0] wsManager) 0) = []"
    by (simp add: manager_defs)
  have n: "channel_set (run [Connect 1, WsOpen 0] wsManager) 1 = {}"
    by (simp add: manager_defs channel_set_def)
  from subscribe_sends_requested_channels [OF c r, of "[''a'']"] c r e n
  show ?thesis by simp
qed

subsection \<open>Sockets closed by the manager itself\<close>

text \<open>What does hold of \<^verbatim>\<open>connect\<close>: with a live socket recorded for the id it does nothing.\<close>

lemma connect_noop_when_live:
  "connections s i = Some k \<Longrightarrow> live (sockets s k) \<Longrightarrow> connect i s = s"
  by (simp add: connect_def live_def)

text \<open>
  Claim C1 asks for at most one open or connecting socket per id in every reachable
  state. The source breaks it: \<^verbatim>\<open>ws.onclose\<close> deletes the entry of the id in
  \<^verbatim>\<open>connections\<close> and arms the reconnect timer whichever socket closed. After
  \<^verbatim>\<open>connect(1)\<close>, \<^verbatim>\<open>disconnect(1)\<close>, \<^verbatim>\<open>connect(1)\<close>, the close event of the first socket
  removes the entry that now names the second socket; when the timer fires,
  \<^verbatim>\<open>connect(1)\<close> finds no entry and opens a third socket beside the second, both
  connecting.
\<close>

theorem stale_close_two_live_sockets:
  "live_sockets
     (run [Connect 1, Disconnect 1, Connect 1, WsClose 0, TimerFire 1] wsManager) 1 = [1, 2]"
  by (simp add: manager_defs live_sockets_def live_def upt_conv_Cons)

text \<open>
  Claim C2 asks that nothing reconnects after \<^verbatim>\<open>disconnect\<close>. The source breaks it
  by the same \<^verbatim>\<open>ws.onclose\<close>: the close event of the socket that \<^verbatim>\<open>disconnect(1)\<close>
  closed arms a reconnect timer for id 1, and the timer opens a new socket, with no call
  of \<^verbatim>\<open>connect\<close> or \<^verbatim>\<open>subscribe\<close> in between.
\<close>

theorem disconnect_then_close_reconnects:
  "reconnectTimeouts (run [Connect 1, WsOpen 0, Disconnect 1, WsClose 0] wsManager) 1 = Some 1
   \<and> timers (run [Connect 1, WsOpen 0, Disconnect 1, WsClose 0] wsManager) 1 = Some 1
   \<and> connections
        (run [Connect 1, WsOpen 0, Disconnect 1, WsClose 0, TimerFire 1] wsManager) 1 = Some 1
   \<and> readyState (sockets
        (run [Connect 1, WsOpen 0, Disconnect 1, WsClose 0, TimerFire 1] wsManager) 1) =
       CONNECTING"
  by (simp add: manager_defs)


subsection \<open>Registration and the clean-up closure\<close>

lemma onMessage_twice:
  "snd (onMessage i ty h (snd (onMessage i ty h s))) = snd (onMessage i ty h s)"
proof (cases "messageHandlers s i")
  case None
  then show ?thesis by (simp add: onMessage_def Let_def js_add_idem)
next
  case (Some a)
  then show ?thesis by (simp add: onMessage_def Let_def js_add_idem)
qed


lemma registered_onMessage:
  "registered (snd (onMessage i ty h s)) i ty' =
     (if ty' = ty
      then (if h \<in> set (registered s i ty) then registered s i ty else registered s i ty @ [h])
      else registered s i ty')"
  by (simp add: onMessage_def Let_def registered_def js_values_add split: option.splits)





text \<open>
  Claim C8, as the specification has it: a callback registered twice for the same id and
  type is called twice for a matching message. It is called once, even when every
  callback returns normally: \<^verbatim>\<open>onMessage\<close> puts the callback into a \<^verbatim>\<open>Set\<close>, and the
  second \<^verbatim>\<open>add\<close> of the same reference changes nothing.
\<close>

theorem duplicate_registration_counterexample:
  "map_option (\<lambda>u. calls_of 7
       (new_calls (run [OnMessage 1 ''trade_event'' 7, OnMessage 1 ''trade_event'' 7] wsManager) u))
     (ws_onmessage well_behaved 1 (Json (JsonValue (Some ''trade_event'') ''{}''))
        (run [OnMessage 1 ''trade_event'' 7, OnMessage 1 ''trade_event'' 7] wsManager)) =
   Some 1"
  by (simp add: manager_defs forEach_from.simps Let_def new_calls_def calls_of_def
      well_behaved_def)

text \<open>
  Claim C8, amended. In a reachable state, registering the same callback a second time
  for the same id and type leaves the manager as the first registration left it; the
  set for that id and type holds the callback once, and a message of that type calls it
  once (the type being not \<^verbatim>\<open>'all'\<close>, the callback not registered as a wildcard too,
  and the callbacks called for the message returning normally without calling the
  manager).
\<close>

theorem duplicate_registration_collapsed:
  assumes "reachable beh s" and "ty \<noteq> ''all''" and "h \<notin> set (registered s i ''all'')"
  shows "fire (OnMessage i ty h) (fire (OnMessage i ty h) s) = fire (OnMessage i ty h) s
    \<and> count_list (registered (fire (OnMessage i ty h) (fire (OnMessage i ty h) s)) i ty) h = 1
    \<and> ((\<forall>g\<in>set (registered (fire (OnMessage i ty h) (fire (OnMessage i ty h) s)) i ty @
                 registered (fire (OnMessage i ty h) (fire (OnMessage i ty h) s)) i ''all'').
           beh g (JsonValue (Some ty) b) = ([], False)) \<longrightarrow>
        map_option
          (\<lambda>u. calls_of h (new_calls (fire (OnMessage i ty h) (fire (OnMessage i ty h) s)) u))
          (ws_onmessage beh i (Json (JsonValue (Some ty) b))
             (fire (OnMessage i ty h) (fire (OnMessage i ty h) s))) = Some 1)"
proof -
  let ?s1 = "fire (OnMessage i ty h) s"
  have same: "fire (OnMessage i ty h) ?s1 = ?s1"
    by (simp add: onMessage_twice)
  have "reachable beh ?s1"
    using assms(1) by (rule reachable.step)
  then have d: "distinct (registered ?s1 i ty)"
    by (rule reachable_registered_distinct)
  have m: "h \<in> set (registered ?s1 i ty)"
    by (simp add: registered_onMessage)
  have one: "count_list (registered ?s1 i ty) h = 1"
    using d m by (rule count_list_distinct)
  have "registered ?s1 i ''all'' = registered s i ''all''"
    using assms(2) by (simp add: registered_onMessage)
  then have zero: "count_list (registered ?s1 i ''all'') h = 0"
    using assms(3) by (simp add: count_list_0_iff)
  have disp: "map_option (\<lambda>u. calls_of h (new_calls ?s1 u))
          (ws_onmessage beh i (Json (JsonValue (Some ty) b)) ?s1) = Some 1"
    if q: "\<forall>g\<in>set (registered ?s1 i ty @ registered ?s1 i ''all'').
           beh g (JsonValue (Some ty) b) = ([], False)"
    using ws_onmessage_quiet
      [where beh = beh and s = ?s1 and i = i and t = ty and b = b, OF q] one zero
    by (simp add: calls_of_map calls_of_append)
  show ?thesis
    unfolding same using one disp by blast
qed

theorem duplicate_registration_collapsed_witness:
  "reachable well_behaved wsManager \<and> ''trade_event'' \<noteq> ''all''
   \<and> 7 \<notin> set (registered wsManager 1 ''all'')
   \<and> registered
        (fire (OnMessage 1 ''trade_event'' 7) (fire (OnMessage 1 ''trade_event'' 7) wsManager))
        1 ''trade_event'' @
      registered
        (fire (OnMessage 1 ''trade_event'' 7) (fire (OnMessage 1 ''trade_event'' 7) wsManager))
        1 ''all'' = [7]
   \<and> well_behaved 7 (JsonValue (Some ''trade_event'') ''{}'') = ([], False)
   \<and> map_option
        (\<lambda>u. calls_of 7 (new_calls
           (fire (OnMessage 1 ''trade_event'' 7) (fire (OnMessage 1 ''trade_event'' 7) wsManager)) u))
        (ws_onmessage well_behaved 1 (Json (JsonValue (Some ''trade_event'') ''{}''))
           (fire (OnMessage 1 ''trade_event'' 7)
              (fire (OnMessage 1 ''trade_event'' 7) wsManager))) = Some 1"
proof -
  have r: "reachable well_behaved wsManager" by (rule reachable.start)
  have t: "''trade_event'' \<noteq> ''all''" by simp
  have n: "7 \<notin> set (registered wsManager 1 ''all'')"
    by (simp add: registered_def wsManager_def)
  have q: "\<forall>g\<in>set (registered
          (fire (OnMessage 1 ''trade_event'' 7) (fire (OnMessage 1 ''trade_event'' 7) wsManager))
          1 ''trade_event'' @
        registered
          (fire (OnMessage 1 ''trade_event'' 7) (fire (OnMessage 1 ''trade_event'' 7) wsManager))
          1 ''all'').
        well_behaved g (JsonValue (Some ''trade_event'') ''{}'') = ([], False)"
    by (simp add: well_behaved_def)
  have l: "registered
        (fire (OnMessage 1 ''trade_event'' 7) (fire (OnMessage 1 ''trade_event'' 7) wsManager))
        1 ''trade_event'' @
      registered
        (fire (OnMessage 1 ''trade_event'' 7) (fire (OnMessage 1 ''trade_event'' 7) wsManager))
        1 ''all'' = [7]"
    by (simp add: manager_defs registered_def)
  have w: "well_behaved 7 (JsonValue (Some ''trade_event'') ''{}'') = ([], False)"
    by (simp add: well_behaved_def)
  from duplicate_registration_collapsed
    [where beh = well_behaved and s = wsManager and ty = "''trade_event''" and h = 7
       and i = 1 and b = "''{}''", OF r t n] r t n q l w
  show ?thesis by blast
qed




subsection \<open>Opening a socket\<close>

lemma deliver_no_calls_intent:
  assumes "\<forall>g m. fst (beh g m) = []"
  shows "map_option subscribedChannels (deliver beh k f s) = Some (subscribedChannels s)"
    and "map_option messageHandlers (deliver beh k f s) = Some (messageHandlers s)"
    and "map_option handler_maps (deliver beh k f s) = Some (handler_maps s)"
proof -
  from deliver_no_calls [OF assms, of k f s] obtain tr lg where
    "deliver beh k f s = Some (s\<lparr>invoked := invoked s @ tr, console := console s @ lg\<rparr>)"
    by blast
  then show "map_option subscribedChannels (deliver beh k f s) = Some (subscribedChannels s)"
    and "map_option messageHandlers (deliver beh k f s) = Some (messageHandlers s)"
    and "map_option handler_maps (deliver beh k f s) = Some (handler_maps s)"
    by simp_all
qed

text \<open>
  Claim C4. In a reachable state, whatever the callbacks have done, let a connecting
  socket open while the SubscriptionSet of its id is not empty. Then what has been sent
  on the socket is one frame, the subscribe frame that lists the whole set; the socket is
  open, and no other socket has changed. No transition of the state machine (an
  unexpected close and the reconnection by the timer among them) changes any
  SubscriptionSet, nor does an inbound frame, unless a callback calls the manager.
\<close>

theorem open_resubscribes:
  assumes "reachable beh s" and "k < next_socket s" and "readyState (sockets s k) = CONNECTING"
    and "subscribedChannels s (connection_id (sockets s k)) = Some chs" and "chs \<noteq> []"
  shows "sent (sockets (fire (WsOpen k) s) k) = [ClientFrame ''subscribe'' chs]
    \<and> readyState (sockets (fire (WsOpen k) s) k) = OPEN
    \<and> (\<forall>k'. k' \<noteq> k \<longrightarrow> sockets (fire (WsOpen k) s) k' = sockets s k')
    \<and> (\<forall>e. lifecycle e \<longrightarrow> subscribedChannels (fire e s) = subscribedChannels s)
    \<and> ((\<forall>g m. fst (beh g m) = []) \<longrightarrow>
        (\<forall>k' f. map_option subscribedChannels (deliver beh k' f s) =
                Some (subscribedChannels s)))"
proof -
  have "connecting_unsent s"
    using assms(1) by (rule reachable_connecting_unsent)
  then have unsent: "sent (sockets s k) = []"
    using assms(3) by (simp add: connecting_unsent_def)
  have "fire (WsOpen k) s =
      ws_onopen (connection_id (sockets s k)) k (set_readyState k OPEN s)"
    using assms(2,3) by simp
  moreover have
    "sockets (ws_onopen (connection_id (sockets s k)) k (set_readyState k OPEN s)) =
      (sockets s)(k := (sockets s k)
         \<lparr>readyState := OPEN, sent := [ClientFrame ''subscribe'' chs]\<rparr>)"
    using assms(4,5) unsent
    by (simp add: ws_onopen_def set_readyState_def ws_send_def Let_def)
  ultimately have so: "sockets (fire (WsOpen k) s) =
      (sockets s)(k := (sockets s k)
         \<lparr>readyState := OPEN, sent := [ClientFrame ''subscribe'' chs]\<rparr>)"
    by (simp only:)
  have life: "\<forall>e. lifecycle e \<longrightarrow> subscribedChannels (fire e s) = subscribedChannels s"
    using lifecycle_preserves_intent by blast
  have msg: "(\<forall>g m. fst (beh g m) = []) \<longrightarrow>
        (\<forall>k' f. map_option subscribedChannels (deliver beh k' f s) =
                Some (subscribedChannels s))"
    using deliver_no_calls_intent(1) [where beh = beh and s = s] by blast
  show ?thesis
    unfolding so using life msg by simp
qed

theorem open_resubscribes_witness:
  "reachable well_behaved dropped_feed \<and> 1 < next_socket dropped_feed
   \<and> readyState (sockets dropped_feed 1) = CONNECTING
   \<and> subscribedChannels dropped_feed (connection_id (sockets dropped_feed 1)) =
       Some [''x'', ''y'']
   \<and> [''x'', ''y''] \<noteq> []
   \<and> sent (sockets (fire (WsOpen 1) dropped_feed) 1) =
       [ClientFrame ''subscribe'' [''x'', ''y'']]"
proof -
  have r: "reachable well_behaved dropped_feed"
    unfolding dropped_feed_def by (rule reachable_run) (rule reachable.start)
  have n: "1 < next_socket dropped_feed"
    by (simp add: dropped_feed_def manager_defs Let_def)
  have c: "readyState (sockets dropped_feed 1) = CONNECTING"
    by (simp add: dropped_feed_def manager_defs Let_def)
  have s: "subscribedChannels dropped_feed (connection_id (sockets dropped_feed 1)) =
      Some [''x'', ''y'']"
    by (simp add: dropped_feed_def manager_defs Let_def)
  have e: "[''x'', ''y''] \<noteq> []" by simp
  from open_resubscribes [where beh = well_behaved, OF r n c s e] r n c s
  show ?thesis by simp
qed

subsection \<open>Explicit disconnect\<close>

lemma disconnect_fields:
  "subscribedChannels (disconnect i s) = (subscribedChannels s)(i := None)"
  "messageHandlers (disconnect i s) = (messageHandlers s)(i := None)"
  "connections (disconnect i s) = (connections s)(i := None)"
  "reconnectTimeouts (disconnect i s) = (reconnectTimeouts s)(i := None)"
  "next_socket (disconnect i s) = next_socket s"
  "invoked (disconnect i s) = invoked s"
  by (simp_all add: disconnect_def Let_def ws_close_def clearTimeout_def fun_eq_iff
      split: option.splits)

lemma disconnect_sockets:
  "connections s i \<noteq> Some k \<Longrightarrow> sockets (disconnect i s) k = sockets s k"
  by (simp add: disconnect_def Let_def ws_close_def clearTimeout_def split: option.splits)

lemma disconnect_timers:
  "reconnectTimeouts s i \<noteq> Some t \<Longrightarrow> timers (disconnect i s) t = timers s t"
  by (simp add: disconnect_def Let_def ws_close_def clearTimeout_def split: option.splits)

lemma connect_fresh:
  assumes "connections s i = None"
  shows "connections (connect i s) i = Some (next_socket s)"
    and "next_socket (connect i s) = Suc (next_socket s)"
    and "sockets (connect i s) (next_socket s) =
           \<lparr>readyState = CONNECTING, connection_id = i, sent = []\<rparr>"
    and "invoked (connect i s) = invoked s"
  using assms
  by (simp_all add: connect_def Let_def new_WebSocket_def clearTimeout_def
      split: option.splits)

lemma open_without_channels:
  assumes "k < next_socket s"
    and "sockets s k = \<lparr>readyState = CONNECTING, connection_id = i, sent = []\<rparr>"
    and "subscribedChannels s i = None"
  shows "sent (sockets (fire (WsOpen k) s) k) = []"
    and "readyState (sockets (fire (WsOpen k) s) k) = OPEN"
    and "connection_id (sockets (fire (WsOpen k) s) k) = i"
    and "next_socket (fire (WsOpen k) s) = next_socket s"
    and "invoked (fire (WsOpen k) s) = invoked s"
  using assms by (simp_all add: ws_onopen_def set_readyState_def Let_def)

lemma ws_onmessage_no_registry:
  "messageHandlers s i = None \<Longrightarrow>
   \<exists>lg. ws_onmessage beh i f s = Some (s\<lparr>console := console s @ lg\<rparr>)"
proof (cases f)
  case (NotJson raw)
  then have "ws_onmessage beh i f s = Some (s\<lparr>console := console s @ [FailedToParse SyntaxError]\<rparr>)"
    by (simp add: ws_onmessage_NotJson)
  then show ?thesis by blast
next
  case (Json msg)
  assume "messageHandlers s i = None"
  with Json have "ws_onmessage beh i f s = Some (s\<lparr>console := console s @ []\<rparr>)"
    by (simp add: ws_onmessage_def ws_onmessage_try_def JSON_parse_def)
  then show ?thesis by blast
qed

text \<open>
  Claim C6. \<^verbatim>\<open>disconnect(id)\<close> leaves the id with no SubscriptionSet, no
  HandlerRegistry, no socket and no timer on record. Every other id keeps its four
  entries; every socket but the one recorded for the id, every timer but the one
  recorded for the id, the store of handler maps and the trace are as before. If
  \<^verbatim>\<open>connect(id)\<close> follows, the new socket opens and a frame arrives on it, then
  \<^verbatim>\<open>ws.onmessage\<close> returns, nothing has been sent on the new socket and no callback
  has been called since before the disconnect. And every transition of the state
  machine (connect, the open, error and close events of a socket, the reconnect timer)
  keeps every SubscriptionSet and the whole HandlerRegistry, as does an inbound frame
  unless a callback calls the manager; besides \<^verbatim>\<open>disconnect\<close>, only the consumer's
  own \<^verbatim>\<open>subscribe\<close>, \<^verbatim>\<open>unsubscribe\<close>, \<^verbatim>\<open>onMessage\<close> and clean-up closures edit
  them.
\<close>

theorem disconnect_clears_intent:
  "subscribedChannels (disconnect i s) i = None \<and> messageHandlers (disconnect i s) i = None
   \<and> connections (disconnect i s) i = None \<and> reconnectTimeouts (disconnect i s) i = None
   \<and> (\<forall>j. j \<noteq> i \<longrightarrow>
         subscribedChannels (disconnect i s) j = subscribedChannels s j
         \<and> messageHandlers (disconnect i s) j = messageHandlers s j
         \<and> connections (disconnect i s) j = connections s j
         \<and> reconnectTimeouts (disconnect i s) j = reconnectTimeouts s j)
   \<and> (\<forall>k. connections s i \<noteq> Some k \<longrightarrow> sockets (disconnect i s) k = sockets s k)
   \<and> (\<forall>t. reconnectTimeouts s i \<noteq> Some t \<longrightarrow> timers (disconnect i s) t = timers s t)
   \<and> handler_maps (disconnect i s) = handler_maps s
   \<and> invoked (disconnect i s) = invoked s
   \<and> connections (connect i (disconnect i s)) i = Some (next_socket s)
   \<and> (\<exists>u. deliver beh (next_socket s) f
             (fire (WsOpen (next_socket s)) (connect i (disconnect i s))) = Some u
          \<and> sent (sockets u (next_socket s)) = [] \<and> invoked u = invoked s)
   \<and> (\<forall>e. lifecycle e \<longrightarrow>
         subscribedChannels (fire e s) = subscribedChannels s
         \<and> messageHandlers (fire e s) = messageHandlers s
         \<and> handler_maps (fire e s) = handler_maps s)
   \<and> ((\<forall>g m. fst (beh g m) = []) \<longrightarrow>
        (\<forall>k f. map_option subscribedChannels (deliver beh k f s) = Some (subscribedChannels s)
             \<and> map_option messageHandlers (deliver beh k f s) = Some (messageHandlers s)
             \<and> map_option handler_maps (deliver beh k f s) = Some (handler_maps s)))"
proof -
  let ?d = "disconnect i s"
  let ?c = "connect i ?d"
  let ?k = "next_socket s"
  let ?o = "fire (WsOpen ?k) ?c"
  have dn: "connections ?d i = None" "next_socket ?d = ?k"
    by (simp_all add: disconnect_fields)
  note cf = connect_fresh [OF dn(1), unfolded dn(2)]
  have sc: "subscribedChannels ?c i = None" and mc: "messageHandlers ?c i = None"
    by (simp_all add: disconnect_fields)
  have lt: "?k < next_socket ?c"
    by (simp add: cf(2))
  define opened where "opened = fire (WsOpen ?k) ?c"
  note ow = open_without_channels [OF lt cf(3) sc, folded opened_def]
  have mo: "messageHandlers opened i = None"
    using mc lifecycle_preserves_intent [of "WsOpen ?k" ?c] by (simp add: opened_def)
  have fm: "deliver beh ?k f opened = ws_onmessage beh i f opened"
    using lt by (simp add: deliver_def ow cf(2))
  from ws_onmessage_no_registry [OF mo, of beh f] obtain lg where
    "ws_onmessage beh i f opened = Some (opened\<lparr>console := console opened @ lg\<rparr>)"
    by blast
  then have "deliver beh ?k f opened = Some (opened\<lparr>console := console opened @ lg\<rparr>)
      \<and> sent (sockets (opened\<lparr>console := console opened @ lg\<rparr>) ?k) = []
      \<and> invoked (opened\<lparr>console := console opened @ lg\<rparr>) = invoked s"
    by (simp add: fm ow cf(4) disconnect_fields)
  then have "\<exists>u. deliver beh ?k f opened = Some u
      \<and> sent (sockets u ?k) = [] \<and> invoked u = invoked s"
    by blast
  then have im: "\<exists>u. deliver beh ?k f ?o = Some u
      \<and> sent (sockets u ?k) = [] \<and> invoked u = invoked s"
    by (simp only: opened_def)
  have other: "\<forall>j. j \<noteq> i \<longrightarrow>
         subscribedChannels ?d j = subscribedChannels s j
         \<and> messageHandlers ?d j = messageHandlers s j
         \<and> connections ?d j = connections s j
         \<and> reconnectTimeouts ?d j = reconnectTimeouts s j"
    by (simp add: disconnect_fields)
  have own: "subscribedChannels ?d i = None \<and> messageHandlers ?d i = None
      \<and> connections ?d i = None \<and> reconnectTimeouts ?d i = None"
    by (simp add: disconnect_fields)
  have store: "(\<forall>k. connections s i \<noteq> Some k \<longrightarrow> sockets ?d k = sockets s k)
      \<and> (\<forall>t. reconnectTimeouts s i \<noteq> Some t \<longrightarrow> timers ?d t = timers s t)
      \<and> handler_maps ?d = handler_maps s \<and> invoked ?d = invoked s"
    by (simp add: disconnect_sockets disconnect_timers disconnect_fields)
  have life: "\<forall>e. lifecycle e \<longrightarrow>
         subscribedChannels (fire e s) = subscribedChannels s
         \<and> messageHandlers (fire e s) = messageHandlers s
         \<and> handler_maps (fire e s) = handler_maps s"
    using lifecycle_preserves_intent by blast
  have msg: "(\<forall>g m. fst (beh g m) = []) \<longrightarrow>
        (\<forall>k f. map_option subscribedChannels (deliver beh k f s) = Some (subscribedChannels s)
             \<and> map_option messageHandlers (deliver beh k f s) = Some (messageHandlers s)
             \<and> map_option handler_maps (deliver beh k f s) = Some (handler_maps s))"
    using deliver_no_calls_intent [where beh = beh and s = s] by blast
  from own other store cf(1) im life msg show ?thesis by blast
qed

theorem disconnect_clears_intent_witness:
  "(2::int) \<noteq> 1 \<and> subscribedChannels (disconnect 1 two_feeds) 2 = Some [''prices'']
   \<and> subscribedChannels two_feeds 1 = Some [''portfolio'']
   \<and> subscribedChannels (disconnect 1 two_feeds) 1 = None
   \<and> connections two_feeds 1 \<noteq> Some 1
   \<and> sockets (disconnect 1 two_feeds) 1 = sockets two_feeds 1
   \<and> lifecycle (WsClose 0)
   \<and> subscribedChannels (fire (WsClose 0) two_feeds) 1 = Some [''portfolio'']
   \<and> map_option invoked
        (deliver (thrower 7) (next_socket two_feeds)
          (Json (JsonValue (Some ''portfolio_update'') ''{}''))
          (fire (WsOpen (next_socket two_feeds)) (connect 1 (disconnect 1 two_feeds)))) = Some []
   \<and> (\<forall>g m. fst (thrower 7 g m) = [])
   \<and> map_option subscribedChannels
        (deliver (thrower 7) 0 (Json (JsonValue (Some ''portfolio_update'') ''{}'')) two_feeds) =
       Some (subscribedChannels two_feeds)"
proof -
  note T = disconnect_clears_intent
    [where beh = "thrower 7" and i = 1 and s = two_feeds
       and f = "Json (JsonValue (Some ''portfolio_update'') ''{}'')"]
  have a: "subscribedChannels two_feeds 2 = Some [''prices'']"
    by (simp add: two_feeds_def manager_defs Let_def)
  have b: "subscribedChannels two_feeds 1 = Some [''portfolio'']"
    by (simp add: two_feeds_def manager_defs Let_def)
  have c: "connections two_feeds 1 \<noteq> Some 1"
    by (simp add: two_feeds_def manager_defs Let_def)
  have d: "invoked two_feeds = []"
    by (simp add: two_feeds_def manager_defs Let_def)
  have l: "lifecycle (WsClose 0)" by simp
  have j: "(2::int) \<noteq> 1" by simp
  have q: "\<forall>g m. fst (thrower 7 g m) = []" by (simp add: thrower_def)
  from T j have "subscribedChannels (disconnect 1 two_feeds) 2 = subscribedChannels two_feeds 2"
    by blast
  moreover from T c have "sockets (disconnect 1 two_feeds) 1 = sockets two_feeds 1"
    by blast
  moreover from T l have
    "subscribedChannels (fire (WsClose 0) two_feeds) = subscribedChannels two_feeds"
    by blast
  moreover from T have "subscribedChannels (disconnect 1 two_feeds) 1 = None"
    by blast
  moreover from T have
    "\<exists>u. deliver (thrower 7) (next_socket two_feeds)
          (Json (JsonValue (Some ''portfolio_update'') ''{}''))
          (fire (WsOpen (next_socket two_feeds)) (connect 1 (disconnect 1 two_feeds))) = Some u
        \<and> invoked u = invoked two_feeds"
    by blast
  moreover from T q have "map_option subscribedChannels
        (deliver (thrower 7) 0 (Json (JsonValue (Some ''portfolio_update'') ''{}'')) two_feeds) =
       Some (subscribedChannels two_feeds)"
    by blast
  ultimately show ?thesis
    using a b c d l j q by auto
qed

end
